theory Spec2Isabelle
  imports Main "HOL-Library.Sublist"
begin

section \<open>A shallow embedding of \<open>shell.c\<close>\<close>

text \<open>
  The shell keeps its background jobs in a singly linked list of heap nodes
  (\<open>struct process\<close>), reached from the global \<open>process_list\<close>. Several functions read
  a node after \<open>free\<close> and one resets the list head to a freed node, so the nodes are
  modelled in an explicit store: addresses are natural numbers, a pointer is a
  \<open>nat option\<close> (\<open>None\<close> is \<open>NULL\<close>), and the set \<open>live\<close> holds the blocks that \<open>malloc\<close>
  returned and \<open>free\<close> has not yet released. A freed block keeps its contents in \<open>heap\<close>;
  every access to a block that is not live is recorded in \<open>faults\<close> (in C it is undefined
  behaviour), and the model then continues with the stale contents.

  \<open>pid_t\<close> and \<open>int\<close> are modelled as \<open>int\<close>: the only arithmetic on them is the
  increment of \<open>list_id\<close> once per node of the list, which cannot reach \<open>2^31\<close>.
\<close>

subsection \<open>Data\<close>

record process =
  next_node :: "nat option"
  name :: "string option"
  process_id :: int
  list_id :: int

datatype fault = Invalid_access nat | Invalid_free nat

datatype signal = SIGINT | SIGCHLD | SIGKILL | SIGTSTP

datatype fd = Pipe_read | Pipe_write | Stdin | Stdout

text \<open>
  The calls that the process makes to the C library and the operating system, in the order
  in which it makes them. \<open>Malloc\<close> carries the pointer that \<open>malloc\<close> returned.
\<close>

datatype event =
    Print string
  | Print_job int "string option" int
  | Perror "string option"
  | Kill int signal
  | Waitpid int
  | Close fd
  | Dup2 fd fd
  | Sleep nat
  | Chdir "string option"
  | Malloc "nat option"
  | Free nat

record shell =
  heap :: "nat \<Rightarrow> process"
  live :: "nat set"
  process_list :: "nat option"
  shell_id :: int
  faults :: "fault list"
  trace :: "event list"

text \<open>
  The values the operating system hands back to the calling process during one call:
  the results of \<open>pipe\<close>, of the two \<open>fork\<close>s, of \<open>execvp\<close> (\<open>None\<close>: the image was replaced;
  \<open>Some e\<close>: it failed with \<open>errno = e\<close>), of \<open>malloc\<close> (\<open>None\<close> is \<open>NULL\<close>), of \<open>chdir\<close>,
  \<open>getcwd\<close> and \<open>getpid\<close>, and the successive results of \<open>wait3\<close>.
\<close>

record os =
  pipe_ret :: int
  fork_ret :: int
  fork_ret2 :: int
  execvp_ret :: "int option"
  malloc_ret :: "nat option"
  chdir_ret :: int
  getcwd_ret :: "string option"
  getpid_ret :: int
  wait3_rets :: "int list"

text \<open>
  How a call ends: it returns a value to its caller, or the process stops there
  (a null pointer is dereferenced, \<open>exit\<close> is called, \<open>execvp\<close> replaces the image, or the
  process is killed by a signal it sent to its own process group).
\<close>

datatype halt =
    Segfault
  | Exit_call int
  | Image_replaced "string option" "string list"
  | Killed_by_signal

datatype 'a outcome = Return 'a shell | Halt halt shell

subsection \<open>Constants of the source\<close>

definition LIST_ID_FIRST_VAL :: int where
  "LIST_ID_FIRST_VAL = 0"

definition SHELL_JOBS_HEADER :: string where
  "SHELL_JOBS_HEADER = [CHR 0x0A] @ ''Current running jobs:'' @ [CHR 0x0A] @ ''[#] cmd''
     @ [CHR 0x09, CHR 0x09] @ ''pid'' @ [CHR 0x0A] @ ''-----------------------''"

definition ERROR_INPUT_CMD :: string where
  "ERROR_INPUT_CMD = ''Command not found''"

definition ERROR_FORK :: string where
  "ERROR_FORK = ''process creation failed: ''"

definition ERROR_OUT_OF_MEM :: string where
  "ERROR_OUT_OF_MEM = ''Could not allocate sufficient memory for process''"

definition ERROR_NO_SUCH_PROC :: string where
  "ERROR_NO_SUCH_PROC = ''Invalid process number''"

subsection \<open>Memory and output primitives\<close>

definition emit :: "event \<Rightarrow> shell \<Rightarrow> shell" where
  "emit e s = s\<lparr>trace := trace s @ [e]\<rparr>"

text \<open>\<open>p->field\<close>: reading or writing through a pointer to a block that is not live is a fault.\<close>

definition access :: "nat \<Rightarrow> shell \<Rightarrow> shell" where
  "access a s = (if a \<in> live s then s else s\<lparr>faults := faults s @ [Invalid_access a]\<rparr>)"

definition free :: "nat \<Rightarrow> shell \<Rightarrow> shell" where
  "free a s =
     emit (Free a) (if a \<in> live s then s\<lparr>live := live s - {a}\<rparr>
                    else s\<lparr>faults := faults s @ [Invalid_free a]\<rparr>)"

text \<open>\<open>print_error\<close>: \<open>printf("%s: %s", "Error", error_message)\<close>.\<close>

definition print_error :: "string \<Rightarrow> shell \<Rightarrow> shell" where
  "print_error error_message s = emit (Print (''Error'' @ '': '' @ error_message)) s"

text \<open>
  \<open>params[i]\<close> of a \<open>NULL\<close>-terminated argument vector: the element, or \<open>NULL\<close> at the
  terminator. (The vector is never read beyond its terminator by the code modelled here,
  except for \<open>params[1]\<close> of an empty vector, which \<open>main\<close> never passes.)
\<close>

definition arg :: "string list \<Rightarrow> nat \<Rightarrow> string option" where
  "arg params i = (if i < length params then Some (params ! i) else None)"

subsection \<open>\<open>strtol(s, NULL, 10)\<close> and the integer conversions applied to its result\<close>

definition isspace :: "char \<Rightarrow> bool" where
  "isspace c \<longleftrightarrow> c \<in> set [CHR 0x20, CHR 0x09, CHR 0x0A, CHR 0x0B, CHR 0x0C, CHR 0x0D]"

definition isdigit :: "char \<Rightarrow> bool" where
  "isdigit c \<longleftrightarrow> 48 \<le> (of_char c :: nat) \<and> (of_char c :: nat) \<le> 57"

fun digits :: "int \<Rightarrow> string \<Rightarrow> int" where
  "digits acc [] = acc"
| "digits acc (c # cs) =
     (if isdigit c then digits (acc * 10 + (of_char c - 48)) cs else acc)"

definition LONG_MAX :: int where
  "LONG_MAX = 2 ^ 63 - 1"

definition strtol10 :: "string \<Rightarrow> int" where
  "strtol10 str =
     (let t = dropWhile isspace str;
          v = (case t of
                 [] \<Rightarrow> 0
               | c # cs \<Rightarrow>
                   if c = CHR ''-'' then - digits 0 cs
                   else if c = CHR ''+'' then digits 0 cs
                   else digits 0 t)
      in if v > LONG_MAX then LONG_MAX else if v < - LONG_MAX - 1 then - LONG_MAX - 1 else v)"

text \<open>The cast \<open>(int)\<close> of a \<open>long\<close>, and the conversion to the \<open>unsigned int\<close> that \<open>sleep\<close> takes.\<close>

definition to_int :: "int \<Rightarrow> int" where
  "to_int v = (v + 2 ^ 31) mod 2 ^ 32 - 2 ^ 31"

definition to_unsigned :: "int \<Rightarrow> nat" where
  "to_unsigned v = nat (v mod 2 ^ 32)"

subsection \<open>Process list functions\<close>

text \<open>
  \<open>process_add\<close>: the node is initialised with \<open>list_id = -1\<close> and prepended. The block
  is the one \<open>malloc\<close> returned; on \<open>NULL\<close> an error is printed and \<open>-1\<close> returned.
\<close>

definition process_add :: "os \<Rightarrow> string option \<Rightarrow> int \<Rightarrow> int \<Rightarrow> shell \<Rightarrow> int \<times> shell" where
  "process_add env nm pid bg_flag s =
     (let s0 = emit (Malloc (malloc_ret env)) s in
      case malloc_ret env of
        None \<Rightarrow> (- 1, print_error ERROR_OUT_OF_MEM s0)
      | Some new \<Rightarrow>
          (0, s0\<lparr>heap := (heap s0)(new := \<lparr>next_node = process_list s0, name = nm,
                                           process_id = pid, list_id = - 1\<rparr>),
                 live := insert new (live s0),
                 process_list := Some new\<rparr>))"

text \<open>The \<open>while (node)\<close> loop of \<open>process_remove_from_list\<close>, with its two cursors.\<close>

partial_function (option) remove_loop ::
  "int \<Rightarrow> nat option \<Rightarrow> nat option \<Rightarrow> shell \<Rightarrow> (int \<times> shell) option" where
  "remove_loop pid prev node s =
     (case node of
        None \<Rightarrow> Some (0, s)
      | Some a \<Rightarrow>
          (let s1 = access a s in
           if process_id (heap s1 a) = pid then
             (let s2 = access a s1; nx = next_node (heap s2 a) in
              case prev of
                None \<Rightarrow> Some (0, free a (s2\<lparr>process_list := nx\<rparr>))
              | Some b \<Rightarrow>
                  (let s3 = access b s2 in
                   Some (0, free a (s3\<lparr>heap := (heap s3)(b := (heap s3 b)\<lparr>next_node := nx\<rparr>)\<rparr>))))
           else
             (let s2 = access a s1 in
              remove_loop pid (Some a) (next_node (heap s2 a)) s2)))"

declare remove_loop.simps [code]

definition process_remove_from_list :: "int \<Rightarrow> shell \<Rightarrow> (int \<times> shell) option" where
  "process_remove_from_list pid s =
     (case process_list s of
        None \<Rightarrow> Some (- 1, print_error ERROR_NO_SUCH_PROC s)
      | Some a \<Rightarrow> remove_loop pid None (Some a) s)"

text \<open>
  The loop of \<open>process_bring_to_fg\<close>. The value returned on a match is
  \<open>node->process_id\<close>, read after \<open>process_remove_from_list\<close> has run.
\<close>

partial_function (option) bring_loop ::
  "int \<Rightarrow> nat option \<Rightarrow> shell \<Rightarrow> (int \<times> shell) option" where
  "bring_loop lid node s =
     (case node of
        None \<Rightarrow> Some (- 1, s)
      | Some a \<Rightarrow>
          (let s1 = access a s in
           if list_id (heap s1 a) = lid then
             (let s2 = access a s1 in
              case process_remove_from_list (process_id (heap s2 a)) s2 of
                None \<Rightarrow> None
              | Some (r, s3) \<Rightarrow>
                  (let s4 = access a s3 in Some (process_id (heap s4 a), s4)))
           else
             (let s2 = access a s1 in
              bring_loop lid (next_node (heap s2 a)) s2)))"

declare bring_loop.simps [code]

definition process_bring_to_fg :: "int \<Rightarrow> shell \<Rightarrow> (int \<times> shell) option" where
  "process_bring_to_fg lid s =
     (case process_list s of
        None \<Rightarrow> Some (- 1, print_error ERROR_NO_SUCH_PROC s)
      | Some a \<Rightarrow> bring_loop lid (Some a) s)"

text \<open>The loop of \<open>process_print_list\<close>: one line per node, and \<open>node->list_id = list_id++\<close>.\<close>

partial_function (option) print_loop :: "nat option \<Rightarrow> int \<Rightarrow> shell \<Rightarrow> shell option" where
  "print_loop node lid s =
     (case node of
        None \<Rightarrow> Some s
      | Some a \<Rightarrow>
          (let s1 = access a (access a s);
               s2 = emit (Print_job lid (name (heap s1 a)) (process_id (heap s1 a))) s1;
               s3 = access a s2;
               s4 = s3\<lparr>heap := (heap s3)(a := (heap s3 a)\<lparr>list_id := lid\<rparr>)\<rparr>;
               s5 = access a s4
           in print_loop (next_node (heap s5 a)) (lid + 1) s5))"

declare print_loop.simps [code]

definition process_print_list :: "shell \<Rightarrow> shell option" where
  "process_print_list s = print_loop (process_list s) LIST_ID_FIRST_VAL s"

definition process_terminate_fg :: "int \<Rightarrow> shell \<Rightarrow> shell" where
  "process_terminate_fg pid s = (if shell_id s = pid then s else emit (Kill pid SIGKILL) s)"

subsection \<open>Signal handler\<close>

text \<open>
  The \<open>SIGCHLD\<close> branch calls \<open>wait3\<close> until it returns a value that is not positive; the
  list holds the values \<open>wait3\<close> returns, and the call after the last of them returns no pid.
\<close>

fun reap_loop :: "int list \<Rightarrow> shell \<Rightarrow> shell option" where
  "reap_loop [] s = Some s"
| "reap_loop (w # ws) s =
     (if w > 0 then
        (case process_remove_from_list w s of
           None \<Rightarrow> None
         | Some (r, s1) \<Rightarrow> reap_loop ws s1)
      else Some s)"

definition signal_handler :: "os \<Rightarrow> signal \<Rightarrow> shell \<Rightarrow> shell option" where
  "signal_handler env sig s =
     (if sig = SIGINT then Some (process_terminate_fg (getpid_ret env) s)
      else if sig = SIGCHLD then reap_loop (wait3_rets env) s
      else Some s)"

subsection \<open>Built-in commands\<close>

fun execute_echo :: "string list \<Rightarrow> shell \<Rightarrow> shell" where
  "execute_echo [] s = s"
| "execute_echo (w # words) s = execute_echo words (emit (Print (w @ '' '')) s)"

definition execute_cd :: "os \<Rightarrow> string option \<Rightarrow> shell \<Rightarrow> int \<times> shell" where
  "execute_cd env path s =
     (let s1 = emit (Chdir path) s in
      if chdir_ret env \<noteq> 0 then (- 1, emit (Perror None) s1) else (0, s1))"

definition execute_pwd :: "os \<Rightarrow> shell \<Rightarrow> shell" where
  "execute_pwd env s =
     (case getcwd_ret env of
        Some buffer \<Rightarrow> emit (Print buffer) s
      | None \<Rightarrow> emit (Perror None) s)"

text \<open>
  The loop of \<open>execute_exit\<close>: it removes the pid stored in the node \<open>process_list\<close> points
  to, then sets \<open>process_list = node\<close> and advances \<open>node\<close>.
\<close>

partial_function (option) exit_loop :: "nat option \<Rightarrow> shell \<Rightarrow> unit outcome option" where
  "exit_loop node s =
     (case node of
        None \<Rightarrow> Some (Return () s)
      | Some a \<Rightarrow>
          (case process_list s of
             None \<Rightarrow> Some (Halt Segfault s)
           | Some h \<Rightarrow>
               (let s1 = access h s in
                case process_remove_from_list (process_id (heap s1 h)) s1 of
                  None \<Rightarrow> None
                | Some (r, s2) \<Rightarrow>
                    (let s3 = s2\<lparr>process_list := Some a\<rparr>;
                         s4 = access a s3
                     in exit_loop (next_node (heap s4 a)) s4))))"

declare exit_loop.simps [code]

text \<open>
  \<open>kill(0, SIGKILL)\<close> signals every process of the caller's process group, the caller
  included, so \<open>execute_exit\<close> does not return.
\<close>

definition execute_exit :: "shell \<Rightarrow> int outcome option" where
  "execute_exit s =
     (case exit_loop (process_list s) s of
        None \<Rightarrow> None
      | Some (Halt h s1) \<Rightarrow> Some (Halt h s1)
      | Some (Return u s1) \<Rightarrow> Some (Halt Killed_by_signal (emit (Kill 0 SIGKILL) s1)))"

definition execute_fg :: "int \<Rightarrow> shell \<Rightarrow> (int \<times> shell) option" where
  "execute_fg lid s =
     (case process_bring_to_fg lid s of
        None \<Rightarrow> None
      | Some (pid, s1) \<Rightarrow>
          if pid = - 1 then Some (- 1, s1) else Some (0, emit (Waitpid pid) s1))"

definition execute_jobs :: "shell \<Rightarrow> shell option" where
  "execute_jobs s = process_print_list (emit (Print SHELL_JOBS_HEADER) s)"

text \<open>
  \<open>execute_built_ins\<close>: \<open>strcmp\<close> on a \<open>NULL\<close> command and \<open>strtol\<close> on a \<open>NULL\<close> string
  dereference a null pointer.
\<close>

definition execute_built_ins ::
  "os \<Rightarrow> string option \<Rightarrow> string list \<Rightarrow> shell \<Rightarrow> int outcome option" where
  "execute_built_ins env command params s =
     (case command of
        None \<Rightarrow> Some (Halt Segfault s)
      | Some c \<Rightarrow>
          if c = ''echo'' then Some (Return 0 (execute_echo (drop 1 params) s))
          else if c = ''cd'' then Some (Return 0 (snd (execute_cd env (arg params 1) s)))
          else if c = ''pwd'' then Some (Return 0 (execute_pwd env s))
          else if c = ''exit'' then execute_exit s
          else if c = ''fg'' then
            (case arg params 1 of
               None \<Rightarrow> Some (Halt Segfault s)
             | Some a \<Rightarrow>
                 (case execute_fg (to_int (strtol10 a)) s of
                    None \<Rightarrow> None
                  | Some (r, s1) \<Rightarrow> Some (Return 0 s1)))
          else if c = ''jobs'' then
            (case execute_jobs s of None \<Rightarrow> None | Some s1 \<Rightarrow> Some (Return 0 s1))
          else Some (Return 1 s))"

subsection \<open>Launching processes\<close>

text \<open>
  \<open>execute\<close>, as run by one process: \<open>fork_ret\<close> is what \<open>fork\<close> returned to it, so the
  child is the run with \<open>fork_ret = 0\<close> on the state inherited from the parent.
\<close>

definition execvp_failed :: "int \<Rightarrow> shell \<Rightarrow> shell" where
  "execvp_failed errno s =
     (if errno = 2 then emit (Perror (Some ERROR_INPUT_CMD)) s else emit (Perror None) s)"

definition execute :: "os \<Rightarrow> string option \<Rightarrow> string list \<Rightarrow> int \<Rightarrow> shell \<Rightarrow> int outcome" where
  "execute env command params bg_flag s =
     (let pid = fork_ret env in
      if pid = 0 then
        (case command of
           None \<Rightarrow> Halt Segfault s
         | Some c \<Rightarrow>
             if c = ''wait'' \<or> c = ''sleep'' then
               (case arg params 1 of
                  None \<Rightarrow> Halt Segfault s
                | Some a \<Rightarrow> Return 0 (emit (Sleep (to_unsigned (strtol10 a))) s))
             else
               (case execvp_ret env of
                  None \<Rightarrow> Halt (Image_replaced command params) s
                | Some errno \<Rightarrow> Return 0 (execvp_failed errno s)))
      else if pid > 0 then
        (if bg_flag = 0 then Return 0 (emit (Waitpid pid) s)
         else
           (case process_add env command pid bg_flag s of
              (r, s1) \<Rightarrow>
                if r \<noteq> 0 then Return (- 1) (emit (Kill pid SIGKILL) s1) else Return 0 s1))
      else Halt (Exit_call 1) (emit (Perror (Some ERROR_FORK)) s))"

text \<open>
  The loop that splits the argument vector of \<open>execute_pipe\<close> at the first \<open>"|"\<close> after
  \<open>args[0]\<close>: the result is the part before it and the part after it. When the terminator
  is reached first, \<open>strcmp\<close> is called on \<open>NULL\<close>.
\<close>

fun split_pipe :: "string list \<Rightarrow> (string list \<times> string list) option" where
  "split_pipe [] = None"
| "split_pipe (x # xs) =
     (if x = ''|'' then Some ([], xs)
      else (case split_pipe xs of None \<Rightarrow> None | Some (l, r) \<Rightarrow> Some (x # l, r)))"

text \<open>
  \<open>execute_pipe\<close>, as run by one process: \<open>fork_ret\<close> is the result of the first \<open>fork\<close>
  and \<open>fork_ret2\<close> that of the second, which only the child of the first one calls.
  When nothing follows the separator, \<open>*pipe_args\<close> is \<open>NULL\<close>: \<open>process_add\<close> stores it
  as the name, and \<open>execvp\<close> dereferences it.
\<close>

definition execute_pipe :: "os \<Rightarrow> string list \<Rightarrow> int \<Rightarrow> shell \<Rightarrow> int outcome" where
  "execute_pipe env args bg_flag s =
     (if pipe_ret env \<noteq> 0 then Return (- 1) (emit (Perror None) s)
      else
        (case args of
           [] \<Rightarrow> Halt Segfault s
         | a0 # rest \<Rightarrow>
             (case split_pipe rest of
                None \<Rightarrow> Halt Segfault s
              | Some (l, pipe_args) \<Rightarrow>
                  (let process_id1 = fork_ret env in
                   if process_id1 = 0 then
                     (let process_id2 = fork_ret2 env in
                      if process_id2 = 0 then
                        (let s1 = emit (Dup2 Pipe_write Stdout) (emit (Close Pipe_read) s) in
                         case execvp_ret env of
                           None \<Rightarrow> Halt (Image_replaced (Some a0) (a0 # l)) s1
                         | Some errno \<Rightarrow> Return 0 (execvp_failed errno s1))
                      else if process_id2 > 0 then
                        (let s1 = emit (Dup2 Pipe_read Stdin) (emit (Close Pipe_write) s);
                             s2 = emit (Waitpid process_id2) s1
                         in
                           case (if bg_flag \<noteq> 0
                                 then process_add env (arg pipe_args 0) process_id2 bg_flag s2
                                 else (0, s2)) of
                             (r, s3) \<Rightarrow>
                               if r \<noteq> 0 then Return (- 1) (emit (Kill process_id2 SIGKILL) s3)
                               else
                                 (case arg pipe_args 0 of
                                    None \<Rightarrow> Halt Segfault s3
                                  | Some c \<Rightarrow>
                                      (case execvp_ret env of
                                         None \<Rightarrow> Halt (Image_replaced (Some c) pipe_args) s3
                                       | Some errno \<Rightarrow> Return 0 (execvp_failed errno s3))))
                      else Halt (Exit_call 1) (emit (Perror (Some ERROR_FORK)) s))
                   else if process_id1 > 0 then
                     (let s1 = emit (Close Pipe_write) (emit (Close Pipe_read) s) in
                      if bg_flag = 0 then Return 0 (emit (Waitpid process_id1) s1)
                      else
                        (case process_add env (Some a0) process_id1 bg_flag s1 of
                           (r, s2) \<Rightarrow>
                             if r \<noteq> 0 then Return (- 1) (emit (Kill process_id1 SIGKILL) s2)
                             else Return 0 s2))
                   else Halt (Exit_call 1) (emit (Perror (Some ERROR_FORK)) s)))))"

section \<open>The job table as a list\<close>

text \<open>
  \<open>chain h p as\<close>: following \<open>next\<close> from the pointer \<open>p\<close> visits exactly the
  addresses \<open>as\<close> and then reaches \<open>NULL\<close>. \<open>table s as\<close>: the job table of \<open>s\<close> is the
  list of nodes at \<open>as\<close>, all of them allocated.
\<close>

fun chain :: "(nat \<Rightarrow> process) \<Rightarrow> nat option \<Rightarrow> nat list \<Rightarrow> bool" where
  "chain h p [] = (p = None)"
| "chain h p (a # as) = (p = Some a \<and> chain h (next_node (h a)) as)"

definition table :: "shell \<Rightarrow> nat list \<Rightarrow> bool" where
  "table s as \<longleftrightarrow> chain (heap s) (process_list s) as \<and> set as \<subseteq> live s"

text \<open>The fields of a record that the user sees: name, pid and display index.\<close>

definition job_of :: "process \<Rightarrow> string option \<times> int \<times> int" where
  "job_of p = (name p, process_id p, list_id p)"

definition jobs :: "shell \<Rightarrow> nat list \<Rightarrow> (string option \<times> int \<times> int) list" where
  "jobs s as = map (\<lambda>a. job_of (heap s a)) as"

definition pids :: "shell \<Rightarrow> nat list \<Rightarrow> int list" where
  "pids s as = map (\<lambda>a. process_id (heap s a)) as"

text \<open>
  What the removal branch of \<open>process_remove_from_list\<close> does to the node at \<open>a\<close> whose
  predecessor is \<open>prev\<close>, and the node list without the first node that carries \<open>pid\<close>.
\<close>

definition unlink :: "nat option \<Rightarrow> nat \<Rightarrow> shell \<Rightarrow> shell" where
  "unlink prev a s =
     free a (case prev of
               None \<Rightarrow> s\<lparr>process_list := next_node (heap s a)\<rparr>
             | Some b \<Rightarrow> s\<lparr>heap := (heap s)(b := (heap s b)\<lparr>next_node := next_node (heap s a)\<rparr>)\<rparr>)"

fun del_pid :: "(nat \<Rightarrow> process) \<Rightarrow> int \<Rightarrow> nat list \<Rightarrow> nat list" where
  "del_pid h pid [] = []"
| "del_pid h pid (a # as) = (if process_id (h a) = pid then as else a # del_pid h pid as)"

text \<open>
  What \<open>process_print_list\<close> does to a list of nodes: the display indices it writes,
  the lines it prints, and the resulting state.
\<close>

fun renumber :: "(nat \<Rightarrow> process) \<Rightarrow> int \<Rightarrow> nat list \<Rightarrow> nat \<Rightarrow> process" where
  "renumber h lid [] = h"
| "renumber h lid (a # as) = renumber (h(a := (h a)\<lparr>list_id := lid\<rparr>)) (lid + 1) as"

fun job_lines :: "(nat \<Rightarrow> process) \<Rightarrow> int \<Rightarrow> nat list \<Rightarrow> event list" where
  "job_lines h lid [] = []"
| "job_lines h lid (a # as) =
     Print_job lid (name (h a)) (process_id (h a)) # job_lines h (lid + 1) as"

definition printed :: "int \<Rightarrow> nat list \<Rightarrow> shell \<Rightarrow> shell" where
  "printed lid as s =
     s\<lparr>heap := renumber (heap s) lid as, trace := trace s @ job_lines (heap s) lid as\<rparr>"

section \<open>Sequences of table operations\<close>

text \<open>
  An \<open>Insert\<close> is a call of \<open>process_add\<close> together with what \<open>malloc\<close> returns to it; a
  \<open>Remove\<close> is a call of \<open>process_remove_from_list\<close>. The return values are dropped, as
  every caller but the launchers drops them.
\<close>

datatype job_op = Insert "nat option" "string option" int | Remove int

fun run_op :: "os \<Rightarrow> job_op \<Rightarrow> shell \<Rightarrow> shell option" where
  "run_op env (Insert m nm pid) s = Some (snd (process_add (env\<lparr>malloc_ret := m\<rparr>) nm pid 1 s))"
| "run_op env (Remove pid) s = map_option snd (process_remove_from_list pid s)"

fun run_ops :: "os \<Rightarrow> job_op list \<Rightarrow> shell \<Rightarrow> shell option" where
  "run_ops env [] s = Some s"
| "run_ops env (x # xs) s =
     (case run_op env x s of None \<Rightarrow> None | Some s1 \<Rightarrow> run_ops env xs s1)"

text \<open>
  The records that are tracked, as pairs of a block and a pid, newest first; a removal takes
  out the first pair with the pid. A sequence of operations is admissible when every
  successful insertion gets from \<open>malloc\<close> a block that no tracked record occupies, and
  inserts a pid that no tracked record carries.
\<close>

fun del_first :: "int \<Rightarrow> (nat \<times> int) list \<Rightarrow> (nat \<times> int) list" where
  "del_first pid [] = []"
| "del_first pid ((a, p) # T) = (if p = pid then T else (a, p) # del_first pid T)"

fun admissible :: "job_op list \<Rightarrow> (nat \<times> int) list \<Rightarrow> bool" where
  "admissible [] T = True"
| "admissible (Insert None nm pid # xs) T = admissible xs T"
| "admissible (Insert (Some a) nm pid # xs) T =
     (a \<notin> fst ` set T \<and> pid \<notin> snd ` set T \<and> admissible xs ((a, pid) # T))"
| "admissible (Remove pid # xs) T = admissible xs (del_first pid T)"

text \<open>
  The pids that are tracked after a sequence of operations, in the words of the
  specification: a pid is tracked from its insertion to its removal.
\<close>

fun tracked_pids :: "job_op list \<Rightarrow> int set \<Rightarrow> int set" where
  "tracked_pids [] P = P"
| "tracked_pids (Insert m nm pid # xs) P =
     tracked_pids xs (if m = None then P else insert pid P)"
| "tracked_pids (Remove pid # xs) P = tracked_pids xs (P - {pid})"

text \<open>The pids on the lines that \<open>process_print_list\<close> prints.\<close>

fun job_pids :: "event list \<Rightarrow> int list" where
  "job_pids [] = []"
| "job_pids (Print_job lid nm pid # es) = pid # job_pids es"
| "job_pids (e # es) = job_pids es"

text \<open>The state holds exactly the tracked records, and their pids are pairwise distinct.\<close>

definition tracks :: "shell \<Rightarrow> (nat \<times> int) list \<Rightarrow> bool" where
  "tracks s T \<longleftrightarrow> table s (map fst T) \<and> pids s (map fst T) = map snd T \<and>
     live s = fst ` set T \<and> distinct (map snd T)"

section \<open>The processes of a pipeline in time\<close>

text \<open>
  A pipeline is run by the shell, by its child (the middle process) and by the child of
  that child; each of them runs \<open>execute_pipe\<close> from the state it inherited at the
  \<open>fork\<close>, with the results that the operating system gives to it. What one process does
  in the call is the list of its library and system calls, then the way the call ends, and
  at last the end of the process; what a process that returns from the call does between
  the return and its end is left out. An action \<open>Call e\<close> stands for the moment at which
  the call \<open>e\<close> has returned.
\<close>

datatype action = Call event | Returns int | Halts halt | Terminated

fun final :: "'a outcome \<Rightarrow> shell" where
  "final (Return r s) = s"
| "final (Halt h s) = s"

fun ending :: "int outcome \<Rightarrow> action" where
  "ending (Return r s) = Returns r"
| "ending (Halt h s) = Halts h"

definition lifetime :: "shell \<Rightarrow> int outcome \<Rightarrow> action list" where
  "lifetime s out =
     map Call (drop (length (trace s)) (trace (final out))) @ [ending out, Terminated]"

text \<open>
  A timeline is a list of actions, each with the pid of the process that performs it, in
  the order of time; \<open>proj p\<close> gives the actions of the process \<open>p\<close>.
\<close>

definition proj :: "int \<Rightarrow> (int \<times> action) list \<Rightarrow> action list" where
  "proj p tline = map snd (filter (\<lambda>x. fst x = p) tline)"

text \<open>
  \<open>waitpid(c, NULL, 0)\<close> blocks until the process \<open>c\<close> has terminated: in a timeline, the
  return of \<open>waitpid\<close> on \<open>c\<close> comes after the end of \<open>c\<close>.
\<close>

fun awaited :: "action \<Rightarrow> int option" where
  "awaited (Call (Waitpid c)) = Some c"
| "awaited a = None"

fun waits_ok :: "(int \<times> action) list \<Rightarrow> (int \<times> action) list \<Rightarrow> bool" where
  "waits_ok seen [] = True"
| "waits_ok seen (x # tline) =
     ((case awaited (snd x) of None \<Rightarrow> True | Some c \<Rightarrow> (c, Terminated) \<in> set seen) \<and>
      waits_ok (seen @ [x]) tline)"

text \<open>
  The timelines of the middle process \<open>p1\<close> and of its child \<open>p2\<close>: each of the two has
  done, so far, an initial part of what its run of \<open>execute_pipe\<close> does, and every wait
  has returned as \<open>waitpid\<close> does.
\<close>

definition pipeline_timeline ::
  "int \<Rightarrow> os \<Rightarrow> int \<Rightarrow> os \<Rightarrow> string list \<Rightarrow> int \<Rightarrow> shell \<Rightarrow> (int \<times> action) list \<Rightarrow> bool" where
  "pipeline_timeline p1 env1 p2 env2 args bg_flag s tline \<longleftrightarrow>
     prefix (proj p1 tline) (lifetime s (execute_pipe env1 args bg_flag s)) \<and>
     prefix (proj p2 tline) (lifetime s (execute_pipe env2 args bg_flag s)) \<and>
     waits_ok [] tline"

section \<open>Concrete states\<close>

text \<open>
  A table of two jobs, the node of the newer job (pid 6) at address 4 and that of the
  older one (pid 5) at address 3.
\<close>

definition blank :: process where
  "blank = \<lparr>next_node = None, name = None, process_id = 0, list_id = 0\<rparr>"

definition two_jobs :: shell where
  "two_jobs =
     \<lparr>heap = (\<lambda>_. blank)
        (3 := \<lparr>next_node = None, name = Some ''a'', process_id = 5, list_id = - 1\<rparr>,
         4 := \<lparr>next_node = Some 3, name = Some ''b'', process_id = 6, list_id = - 1\<rparr>),
      live = {3, 4}, process_list = Some 4, shell_id = 100, faults = [], trace = []\<rparr>"

text \<open>
  The same table after its jobs were listed, then with the head node taken out, then with
  the remaining node taken out and read once more.
\<close>

definition two_jobs_listed :: shell where
  "two_jobs_listed = printed 0 [4, 3] two_jobs"

definition one_job_left :: shell where
  "one_job_left = unlink None 4 two_jobs_listed"

definition no_job_left :: shell where
  "no_job_left = access 3 (unlink None 3 one_job_left)"

text \<open>A shell without jobs, and what the operating system returns in the examples.\<close>

definition empty_shell :: shell where
  "empty_shell = \<lparr>heap = (\<lambda>_. blank), live = {}, process_list = None, shell_id = 100,
     faults = [], trace = []\<rparr>"

definition an_os :: os where
  "an_os = \<lparr>pipe_ret = 0, fork_ret = 101, fork_ret2 = 102, execvp_ret = None,
     malloc_ret = Some 5, chdir_ret = 0, getcwd_ret = Some ''/'', getpid_ret = 100,
     wait3_rets = []\<rparr>"

text \<open>
  The middle process of a pipeline: the first \<open>fork\<close> returned \<open>0\<close> to it, the
  second one the pid \<open>102\<close> of its child, and its own pid is \<open>101\<close>.
\<close>

definition p1_os :: os where
  "p1_os = \<lparr>pipe_ret = 0, fork_ret = 0, fork_ret2 = 102, execvp_ret = None,
     malloc_ret = Some 5, chdir_ret = 0, getcwd_ret = Some ''/'', getpid_ret = 101,
     wait3_rets = []\<rparr>"

text \<open>
  The child of the middle process, which runs the first command: both \<open>fork\<close>s returned
  \<open>0\<close> to it, and its pid is \<open>102\<close>. And a timeline of \<open>ls | wc -l\<close> for the two
  processes, up to the moment before the middle process replaces its image.
\<close>

definition p2_os :: os where
  "p2_os = \<lparr>pipe_ret = 0, fork_ret = 0, fork_ret2 = 0, execvp_ret = None,
     malloc_ret = Some 5, chdir_ret = 0, getcwd_ret = Some ''/'', getpid_ret = 102,
     wait3_rets = []\<rparr>"

definition ls_wc_before :: "(int \<times> action) list" where
  "ls_wc_before =
     [(102, Call (Close Pipe_read)), (101, Call (Close Pipe_write)),
      (102, Call (Dup2 Pipe_write Stdout)), (101, Call (Dup2 Pipe_read Stdin)),
      (102, Halts (Image_replaced (Some ''ls'') [''ls''])), (102, Terminated),
      (101, Call (Waitpid 102))]"

definition ls_wc_timeline :: "(int \<times> action) list" where
  "ls_wc_timeline =
     ls_wc_before @
     [(101, Halts (Image_replaced (Some ''wc'') [''wc'', ''-l''])), (101, Terminated)]"

section \<open>Lemmas\<close>

subsection \<open>Events\<close>

lemma emit_fields [simp]:
  "heap (emit e s) = heap s" "live (emit e s) = live s"
  "process_list (emit e s) = process_list s" "shell_id (emit e s) = shell_id s"
  "faults (emit e s) = faults s" "trace (emit e s) = trace s @ [e]"
  by (simp_all add: emit_def)

lemma table_emit [simp]: "table (emit e s) as = table s as"
  by (simp add: table_def)

lemma jobs_emit [simp]: "jobs (emit e s) as = jobs s as"
  by (simp add: jobs_def)

lemma pids_emit [simp]: "pids (emit e s) as = pids s as"
  by (simp add: pids_def)

subsection \<open>Chains and removal by pid\<close>

lemma chain_unique: "chain h p as \<Longrightarrow> chain h p bs \<Longrightarrow> as = bs"
proof (induction as arbitrary: p bs)
  case Nil
  then show ?case by (cases bs) auto
next
  case (Cons a as)
  then show ?case by (cases bs) auto
qed

lemma chain_append: "chain h p (as @ bs) \<Longrightarrow> \<exists>q. chain h q bs"
  by (induction as arbitrary: p) auto

lemma chain_head_fresh:
  assumes "chain h (next_node (h a)) as"
  shows "a \<notin> set as"
proof
  assume "a \<in> set as"
  then obtain xs ys where split: "as = xs @ a # ys"
    by (auto simp: in_set_conv_decomp)
  with assms obtain q where "chain h q (a # ys)"
    using chain_append by blast
  then have "chain h (next_node (h a)) ys" by simp
  with assms have "as = ys" by (rule chain_unique)
  with split show False by simp
qed

lemma chain_distinct: "chain h p as \<Longrightarrow> distinct as"
  by (induction as arbitrary: p) (auto dest: chain_head_fresh)

lemma chain_update_other: "a \<notin> set as \<Longrightarrow> chain (h(a := v)) p as = chain h p as"
  by (induction as arbitrary: p) auto

lemma chain_update_same_next:
  "next_node v = next_node (h a) \<Longrightarrow> chain (h(a := v)) p as = chain h p as"
  by (induction as arbitrary: p) auto

lemma access_live [simp]: "a \<in> live s \<Longrightarrow> access a s = s"
  by (simp add: access_def)

lemma remove_loop_miss:
  "chain (heap s) node as \<Longrightarrow> set as \<subseteq> live s \<Longrightarrow>
   \<forall>a \<in> set as. process_id (heap s a) \<noteq> pid \<Longrightarrow>
   remove_loop pid prev node s = Some (0, s)"
proof (induction as arbitrary: prev node)
  case Nil
  then show ?case by (simp add: remove_loop.simps)
next
  case (Cons a as)
  then have "remove_loop pid (Some a) (next_node (heap s a)) s = Some (0, s)"
    by simp
  with Cons.prems show ?case
    by (subst remove_loop.simps) simp
qed


lemma remove_loop_hit:
  "chain (heap s) node (pre @ a # post) \<Longrightarrow> set (pre @ a # post) \<subseteq> live s \<Longrightarrow>
   \<forall>x \<in> set pre. process_id (heap s x) \<noteq> pid \<Longrightarrow> process_id (heap s a) = pid \<Longrightarrow>
   (case prev of None \<Rightarrow> True | Some b \<Rightarrow> b \<in> live s) \<Longrightarrow>
   remove_loop pid prev node s = Some (0, unlink (if pre = [] then prev else Some (last pre)) a s)"
proof (induction pre arbitrary: prev node)
  case Nil
  then show ?case
    by (subst remove_loop.simps) (simp add: unlink_def split: option.splits)
next
  case (Cons x pre)
  then have "remove_loop pid (Some x) (next_node (heap s x)) s =
      Some (0, unlink (if pre = [] then Some x else Some (last pre)) a s)"
    by simp
  with Cons.prems show ?case
    by (subst remove_loop.simps) simp
qed

lemma del_pid_miss: "\<forall>a \<in> set as. process_id (h a) \<noteq> pid \<Longrightarrow> del_pid h pid as = as"
  by (induction as) auto

lemma del_pid_split:
  "\<exists>a \<in> set as. process_id (h a) = pid \<Longrightarrow>
   \<exists>pre a post. as = pre @ a # post \<and> (\<forall>x \<in> set pre. process_id (h x) \<noteq> pid) \<and>
      process_id (h a) = pid \<and> del_pid h pid as = pre @ post"
proof (induction as)
  case Nil
  then show ?case by simp
next
  case (Cons b as)
  show ?case
  proof (cases "process_id (h b) = pid")
    case True
    then have "b # as = [] @ b # as \<and> (\<forall>x \<in> set []. process_id (h x) \<noteq> pid) \<and>
        process_id (h b) = pid \<and> del_pid h pid (b # as) = [] @ as"
      by simp
    then show ?thesis by blast
  next
    case False
    with Cons obtain pre a post where
      "as = pre @ a # post" "\<forall>x \<in> set pre. process_id (h x) \<noteq> pid"
      "process_id (h a) = pid" "del_pid h pid as = pre @ post"
      by auto
    with False have "b # as = (b # pre) @ a # post \<and>
        (\<forall>x \<in> set (b # pre). process_id (h x) \<noteq> pid) \<and>
        process_id (h a) = pid \<and> del_pid h pid (b # as) = (b # pre) @ post"
      by simp
    then show ?thesis by blast
  qed
qed

lemma chain_split:
  "chain h p (pre @ a # post) \<Longrightarrow> chain h (next_node (h a)) post"
  by (induction pre arbitrary: p) auto

lemma chain_relink:
  "chain h p (pre @ [b, a] @ post) \<Longrightarrow> distinct (pre @ [b, a] @ post) \<Longrightarrow>
   chain (h(b := (h b)\<lparr>next_node := next_node (h a)\<rparr>)) p (pre @ b # post)"
proof (induction pre arbitrary: p)
  case Nil
  then have "b \<notin> set post" and "chain h (next_node (h a)) post" and "p = Some b"
    by simp_all
  then have "chain (h(b := (h b)\<lparr>next_node := next_node (h a)\<rparr>)) (next_node (h a)) post"
    using chain_update_other [of b post h] by blast
  with \<open>p = Some b\<close> show ?case by (simp del: fun_upd_apply add: fun_upd_same)
next
  case (Cons x pre)
  then show ?case by auto
qed

lemma table_unlink_head:
  assumes "table s (a # post)"
  shows "table (unlink None a s) post"
proof -
  from assms have c: "chain (heap s) (next_node (heap s a)) post" and l: "set (a # post) \<subseteq> live s"
    by (simp_all add: table_def)
  from c have "a \<notin> set post" by (rule chain_head_fresh)
  with c l show ?thesis
    by (auto simp: table_def unlink_def free_def)
qed

lemma table_unlink_inner:
  assumes "table s (pre @ a # post)" and "pre \<noteq> []"
  shows "table (unlink (Some (last pre)) a s) (pre @ post)"
proof -
  from assms(2) obtain pre' b where pre: "pre = pre' @ [b]"
    by (metis append_butlast_last_id)
  from assms(1) have c: "chain (heap s) (process_list s) (pre' @ [b, a] @ post)"
    and l: "set (pre @ a # post) \<subseteq> live s"
    by (simp_all add: table_def pre)
  from c have d: "distinct (pre' @ [b, a] @ post)" by (rule chain_distinct)
  from c d have "chain ((heap s)(b := (heap s b)\<lparr>next_node := next_node (heap s a)\<rparr>))
      (process_list s) (pre' @ b # post)"
    by (rule chain_relink)
  with l d show ?thesis
    by (auto simp: table_def unlink_def free_def pre)
qed


lemma process_remove_from_list_empty:
  "table s [] \<Longrightarrow>
   process_remove_from_list pid s = Some (- 1, print_error ERROR_NO_SUCH_PROC s)"
  by (simp add: table_def process_remove_from_list_def)

lemma process_remove_from_list_miss:
  assumes "table s as" and "as \<noteq> []" and "\<forall>a \<in> set as. process_id (heap s a) \<noteq> pid"
  shows "process_remove_from_list pid s = Some (0, s)"
proof -
  from assms(1) have c: "chain (heap s) (process_list s) as" and l: "set as \<subseteq> live s"
    by (simp_all add: table_def)
  from assms(2) c obtain a where "process_list s = Some a"
    by (cases as) auto
  moreover from c l assms(3) have "remove_loop pid None (process_list s) s = Some (0, s)"
    by (rule remove_loop_miss)
  ultimately show ?thesis
    by (simp add: process_remove_from_list_def)
qed

lemma process_remove_from_list_hit:
  assumes "table s (pre @ a # post)" and "\<forall>x \<in> set pre. process_id (heap s x) \<noteq> pid"
    and "process_id (heap s a) = pid"
  shows "process_remove_from_list pid s =
     Some (0, unlink (if pre = [] then None else Some (last pre)) a s)"
proof -
  from assms(1) have c: "chain (heap s) (process_list s) (pre @ a # post)"
    and l: "set (pre @ a # post) \<subseteq> live s"
    by (simp_all add: table_def)
  from c obtain b where "process_list s = Some b"
    by (cases pre) auto
  moreover from c l assms(2,3)
  have "remove_loop pid None (process_list s) s =
      Some (0, unlink (if pre = [] then None else Some (last pre)) a s)"
    by (rule remove_loop_hit) simp
  ultimately show ?thesis
    by (simp add: process_remove_from_list_def)
qed

lemma table_unlink:
  assumes "table s (pre @ a # post)"
  shows "table (unlink (if pre = [] then None else Some (last pre)) a s) (pre @ post)"
proof (cases "pre = []")
  case True
  with assms show ?thesis by (simp add: table_unlink_head)
next
  case False
  with assms show ?thesis by (simp add: table_unlink_inner)
qed

lemma unlink_fields:
  "a \<in> live s \<Longrightarrow> live (unlink prev a s) = live s - {a}"
  "a \<in> live s \<Longrightarrow> faults (unlink prev a s) = faults s"
  "trace (unlink prev a s) = trace s @ [Free a]"
  "shell_id (unlink prev a s) = shell_id s"
  "job_of (heap (unlink prev a s) x) = job_of (heap s x)"
  by (auto simp: unlink_def free_def job_of_def split: option.splits)

subsection \<open>Printing and lookup by display index\<close>

lemma job_lines_cong:
  "\<forall>a \<in> set as. name (h' a) = name (h a) \<and> process_id (h' a) = process_id (h a) \<Longrightarrow>
   job_lines h' lid as = job_lines h lid as"
  by (induction as arbitrary: lid) auto

lemma print_loop_chain:
  "chain (heap s) node as \<Longrightarrow> set as \<subseteq> live s \<Longrightarrow>
   print_loop node lid s = Some (printed lid as s)"
proof (induction as arbitrary: s node lid)
  case Nil
  then show ?case by (subst print_loop.simps) (simp add: printed_def)
next
  case (Cons a as)
  let ?s' = "(emit (Print_job lid (name (heap s a)) (process_id (heap s a))) s)
      \<lparr>heap := (heap s)(a := (heap s a)\<lparr>list_id := lid\<rparr>)\<rparr>"
  from Cons.prems have a: "a \<in> live s" and node: "node = Some a"
    and c: "chain (heap s) (next_node (heap s a)) as" and l: "set as \<subseteq> live s"
    by simp_all
  from c have "chain (heap ?s') (next_node (heap s a)) as"
    by (simp add: emit_def chain_update_same_next del: fun_upd_apply)
  moreover from l have "set as \<subseteq> live ?s'" by (simp add: emit_def)
  ultimately have ih: "print_loop (next_node (heap s a)) (lid + 1) ?s' = Some (printed (lid + 1) as ?s')"
    by (rule Cons.IH)
  have jl: "job_lines ((heap s)(a := (heap s a)\<lparr>list_id := lid\<rparr>)) (lid + 1) as =
      job_lines (heap s) (lid + 1) as"
    by (rule job_lines_cong) simp
  have "printed (lid + 1) as ?s' = printed lid (a # as) s"
    by (simp add: printed_def emit_def jl del: fun_upd_apply)
  with ih have "print_loop (next_node (heap s a)) (lid + 1) ?s' = Some (printed lid (a # as) s)"
    by simp
  with a node show ?case
    by (subst print_loop.simps) (simp add: emit_def Let_def)
qed

lemma renumber_other: "x \<notin> set as \<Longrightarrow> renumber h lid as x = h x"
  by (induction as arbitrary: h lid) auto

lemma renumber_fields:
  "next_node (renumber h lid as x) = next_node (h x)"
  "name (renumber h lid as x) = name (h x)"
  "process_id (renumber h lid as x) = process_id (h x)"
  by (induction as arbitrary: h lid) auto

lemma renumber_index:
  "distinct as \<Longrightarrow> k < length as \<Longrightarrow> list_id (renumber h lid as (as ! k)) = lid + int k"
proof (induction as arbitrary: h lid k)
  case Nil
  then show ?case by simp
next
  case (Cons a as)
  show ?case
  proof (cases k)
    case 0
    with Cons.prems show ?thesis by (simp add: renumber_other)
  next
    case (Suc j)
    with Cons.prems have "list_id (renumber (h(a := (h a)\<lparr>list_id := lid\<rparr>)) (lid + 1) as (as ! j))
        = lid + 1 + int j"
      by (intro Cons.IH) simp_all
    with Suc show ?thesis by simp
  qed
qed

lemma chain_renumber: "chain (renumber h lid as) p bs = chain h p bs"
  by (induction bs arbitrary: p) (auto simp: renumber_fields)

lemma bring_loop_miss:
  "chain (heap s) node as \<Longrightarrow> set as \<subseteq> live s \<Longrightarrow>
   \<forall>a \<in> set as. list_id (heap s a) \<noteq> lid \<Longrightarrow>
   bring_loop lid node s = Some (- 1, s)"
proof (induction as arbitrary: node)
  case Nil
  then show ?case by (simp add: bring_loop.simps)
next
  case (Cons a as)
  then have "bring_loop lid (next_node (heap s a)) s = Some (- 1, s)"
    by simp
  with Cons.prems show ?case
    by (subst bring_loop.simps) simp
qed

lemma bring_loop_hit:
  "chain (heap s) node (pre @ a # post) \<Longrightarrow> set (pre @ a # post) \<subseteq> live s \<Longrightarrow>
   \<forall>x \<in> set pre. list_id (heap s x) \<noteq> lid \<Longrightarrow> list_id (heap s a) = lid \<Longrightarrow>
   process_remove_from_list (process_id (heap s a)) s = Some (r, s3) \<Longrightarrow>
   bring_loop lid node s = Some (process_id (heap (access a s3) a), access a s3)"
proof (induction pre arbitrary: node)
  case Nil
  then show ?case
    by (subst bring_loop.simps) (simp add: Let_def)
next
  case (Cons x pre)
  then have "bring_loop lid (next_node (heap s x)) s =
      Some (process_id (heap (access a s3) a), access a s3)"
    by simp
  with Cons.prems show ?case
    by (subst bring_loop.simps) simp
qed

lemma process_bring_to_fg_miss:
  assumes "table s as" and "as \<noteq> []" and "\<forall>a \<in> set as. list_id (heap s a) \<noteq> lid"
  shows "process_bring_to_fg lid s = Some (- 1, s)"
proof -
  from assms(1) have c: "chain (heap s) (process_list s) as" and l: "set as \<subseteq> live s"
    by (simp_all add: table_def)
  from assms(2) c obtain a where "process_list s = Some a"
    by (cases as) auto
  moreover from c l assms(3) have "bring_loop lid (process_list s) s = Some (- 1, s)"
    by (rule bring_loop_miss)
  ultimately show ?thesis
    by (simp add: process_bring_to_fg_def)
qed

lemma process_bring_to_fg_empty:
  "table s [] \<Longrightarrow> process_bring_to_fg lid s = Some (- 1, print_error ERROR_NO_SUCH_PROC s)"
  by (simp add: table_def process_bring_to_fg_def)

lemma process_bring_to_fg_hit:
  assumes "table s (pre @ a # post)" and "\<forall>x \<in> set pre. list_id (heap s x) \<noteq> lid"
    and "list_id (heap s a) = lid"
    and "process_remove_from_list (process_id (heap s a)) s = Some (r, s3)"
  shows "process_bring_to_fg lid s = Some (process_id (heap (access a s3) a), access a s3)"
proof -
  from assms(1) have c: "chain (heap s) (process_list s) (pre @ a # post)"
    and l: "set (pre @ a # post) \<subseteq> live s"
    by (simp_all add: table_def)
  from c obtain b where "process_list s = Some b"
    by (cases pre) auto
  moreover from c l assms(2,3,4)
  have "bring_loop lid (process_list s) s = Some (process_id (heap (access a s3) a), access a s3)"
    by (rule bring_loop_hit)
  ultimately show ?thesis
    by (simp add: process_bring_to_fg_def)
qed

text \<open>With pairwise distinct pids, the first node that carries the pid of a node is that node.\<close>

lemma distinct_pids_first:
  assumes "distinct (pids s (pre @ a # post))"
  shows "\<forall>x \<in> set pre. process_id (heap s x) \<noteq> process_id (heap s a)"
proof
  fix x
  assume "x \<in> set pre"
  then have "process_id (heap s x) \<in> set (pids s pre)"
    by (simp add: pids_def)
  moreover from assms have "process_id (heap s a) \<notin> set (pids s pre)"
    by (simp add: pids_def)
  ultimately show "process_id (heap s x) \<noteq> process_id (heap s a)"
    by metis
qed

lemma access_fields [simp]:
  "heap (access a s) = heap s" "live (access a s) = live s"
  "process_list (access a s) = process_list s" "trace (access a s) = trace s"
  "shell_id (access a s) = shell_id s"
  by (simp_all add: access_def)

lemma table_access [simp]: "table (access a s) as = table s as"
  by (simp add: table_def)

lemma jobs_access [simp]: "jobs (access a s) as = jobs s as"
  by (simp add: jobs_def)

lemma jobs_unlink [simp]: "jobs (unlink prev a s) as = jobs s as"
  by (simp add: jobs_def unlink_fields)

text \<open>Taking the node found by display index out of the table, when no earlier node has its pid.\<close>

lemma process_bring_to_fg_unlinks:
  assumes t: "table s (pre @ a # post)"
    and f: "\<forall>x \<in> set pre. process_id (heap s x) \<noteq> process_id (heap s a)"
    and m: "\<forall>x \<in> set pre. list_id (heap s x) \<noteq> lid" and h: "list_id (heap s a) = lid"
  shows "\<exists>s'. process_bring_to_fg lid s = Some (process_id (heap s a), s') \<and>
     table s' (pre @ post) \<and> jobs s' (pre @ post) = jobs s (pre @ post) \<and>
     faults s' = faults s @ [Invalid_access a] \<and> trace s' = trace s @ [Free a] \<and>
     live s' = live s - {a}"
proof -
  let ?u = "unlink (if pre = [] then None else Some (last pre)) a s"
  from t have a: "a \<in> live s" by (simp add: table_def)
  from t f have r: "process_remove_from_list (process_id (heap s a)) s = Some (0, ?u)"
    by (simp add: process_remove_from_list_hit)
  with t m h have b: "process_bring_to_fg lid s = Some (process_id (heap (access a ?u) a), access a ?u)"
    by (rule process_bring_to_fg_hit)
  from a have na: "a \<notin> live ?u" by (simp add: unlink_fields)
  have "job_of (heap ?u a) = job_of (heap s a)" by (simp add: unlink_fields)
  then have p: "process_id (heap (access a ?u) a) = process_id (heap s a)"
    by (simp add: job_of_def)
  from t have "table (access a ?u) (pre @ post)" by (simp add: table_unlink)
  moreover from a na have "faults (access a ?u) = faults s @ [Invalid_access a]"
    by (simp add: access_def unlink_fields)
  moreover from a have "trace (access a ?u) = trace s @ [Free a]" "live (access a ?u) = live s - {a}"
    by (simp_all add: unlink_fields)
  ultimately show ?thesis using b p by simp
qed

lemma table_printed: "table (printed lid as s) bs = table s bs"
  by (simp add: table_def printed_def chain_renumber)

lemma process_print_list_table:
  assumes "table s as"
  shows "process_print_list s = Some (printed 0 as s)"
  using assms
  by (simp add: process_print_list_def LIST_ID_FIRST_VAL_def table_def print_loop_chain)

lemma printed_list_id:
  assumes "table s as" and "k < length as"
  shows "list_id (heap (printed 0 as s) (as ! k)) = int k"
proof -
  from assms(1) have "distinct as" by (auto simp: table_def dest: chain_distinct)
  with assms(2) show ?thesis by (simp add: printed_def renumber_index)
qed

lemma printed_pids: "pids (printed lid as s) bs = pids s bs"
  by (simp add: pids_def printed_def renumber_fields)

lemma printed_fields [simp]:
  "live (printed lid as s) = live s" "faults (printed lid as s) = faults s"
  "process_list (printed lid as s) = process_list s" "shell_id (printed lid as s) = shell_id s"
  by (simp_all add: printed_def)

lemma two_jobs_table: "table two_jobs [4, 3]"
  by (simp add: two_jobs_def table_def)

lemma two_jobs_pids: "pids two_jobs [4, 3] = [6, 5]"
  by (simp add: two_jobs_def pids_def)

subsection \<open>Insertion, removal and sequences of both\<close>

lemma process_add_table:
  assumes t: "table s as" and m: "malloc_ret env = Some new" and n: "new \<notin> live s"
  shows "\<exists>s1. process_add env nm pid bg_flag s = (0, s1) \<and> table s1 (new # as) \<and>
     job_of (heap s1 new) = (nm, pid, - 1) \<and> (\<forall>x. x \<noteq> new \<longrightarrow> heap s1 x = heap s x) \<and>
     live s1 = insert new (live s) \<and> faults s1 = faults s \<and>
     trace s1 = trace s @ [Malloc (Some new)]"
proof -
  let ?s1 = "s\<lparr>heap := (heap s)(new := \<lparr>next_node = process_list s, name = nm,
      process_id = pid, list_id = - 1\<rparr>), live := insert new (live s), process_list := Some new,
      trace := trace s @ [Malloc (Some new)]\<rparr>"
  from t n have "new \<notin> set as" by (auto simp: table_def)
  with t have "chain ((heap s)(new := \<lparr>next_node = process_list s, name = nm,
      process_id = pid, list_id = - 1\<rparr>)) (process_list s) as"
    using chain_update_other [of new as "heap s"] by (simp add: table_def del: fun_upd_apply)
  with t have "table ?s1 (new # as)"
    by (auto simp: table_def simp del: fun_upd_apply simp add: fun_upd_same)
  moreover from m have "process_add env nm pid bg_flag s = (0, ?s1)"
    by (simp add: process_add_def emit_def)
  ultimately show ?thesis
    by (simp add: job_of_def)
qed

lemma process_remove_from_list_keeps_jobs:
  assumes "table s as"
  shows "\<exists>r s'. process_remove_from_list pid s = Some (r, s') \<and>
     (\<forall>x. job_of (heap s' x) = job_of (heap s x))"
proof (cases "\<exists>a \<in> set as. process_id (heap s a) = pid")
  case True
  then obtain pre a post where "as = pre @ a # post"
    "\<forall>x \<in> set pre. process_id (heap s x) \<noteq> pid" "process_id (heap s a) = pid"
    using del_pid_split [of as "heap s" pid] by blast
  with assms have "process_remove_from_list pid s =
      Some (0, unlink (if pre = [] then None else Some (last pre)) a s)"
    by (simp add: process_remove_from_list_hit)
  then show ?thesis by (simp add: unlink_fields)
next
  case False
  show ?thesis
  proof (cases "as = []")
    case True
    with assms show ?thesis
      by (simp add: process_remove_from_list_empty print_error_def emit_def)
  next
    case False
    with assms \<open>\<not> (\<exists>a \<in> set as. process_id (heap s a) = pid)\<close> show ?thesis
      by (simp add: process_remove_from_list_miss)
  qed
qed

lemma process_remove_from_list_table:
  assumes "table s as"
  shows "\<exists>r s'. process_remove_from_list pid s = Some (r, s') \<and>
     table s' (del_pid (heap s) pid as) \<and> (\<forall>x. job_of (heap s' x) = job_of (heap s x)) \<and>
     live s' = live s - (set as - set (del_pid (heap s) pid as)) \<and> faults s' = faults s"
proof (cases "\<exists>a \<in> set as. process_id (heap s a) = pid")
  case True
  then obtain pre a post where split: "as = pre @ a # post"
    and pre: "\<forall>x \<in> set pre. process_id (heap s x) \<noteq> pid" and a: "process_id (heap s a) = pid"
    and del: "del_pid (heap s) pid as = pre @ post"
    using del_pid_split [of as "heap s" pid] by blast
  let ?u = "unlink (if pre = [] then None else Some (last pre)) a s"
  from assms split pre a have "process_remove_from_list pid s = Some (0, ?u)"
    by (simp add: process_remove_from_list_hit)
  moreover from assms split have "table ?u (pre @ post)"
    by (simp add: table_unlink)
  moreover from assms split have "a \<in> live s" by (simp add: table_def)
  moreover from assms have "distinct as" by (auto simp: table_def dest: chain_distinct)
  with split have "set as - set (pre @ post) = {a}" by auto
  ultimately show ?thesis
    by (simp add: del unlink_fields)
next
  case False
  then have del: "del_pid (heap s) pid as = as"
    by (simp add: del_pid_miss)
  show ?thesis
  proof (cases "as = []")
    case True
    with assms show ?thesis
      by (simp add: process_remove_from_list_empty print_error_def emit_def table_def)
  next
    case False
    with assms \<open>\<not> (\<exists>a \<in> set as. process_id (heap s a) = pid)\<close> show ?thesis
      by (simp add: process_remove_from_list_miss del)
  qed
qed

lemma del_pid_del_first:
  "pids s (map fst T) = map snd T \<Longrightarrow> del_pid (heap s) pid (map fst T) = map fst (del_first pid T)"
  by (induction T) (auto simp: pids_def)

lemma del_first_subset: "set (del_first pid T) \<subseteq> set T"
  by (induction T) (auto split: if_splits)

lemma del_first_pids:
  "distinct (map snd T) \<Longrightarrow> snd ` set (del_first pid T) = snd ` set T - {pid}"
  by (induction T) force+

lemma del_first_distinct: "distinct (map snd T) \<Longrightarrow> distinct (map snd (del_first pid T))"
proof (induction T)
  case Nil
  then show ?case by simp
next
  case (Cons x T)
  obtain a p where x: "x = (a, p)" by (cases x)
  from Cons.prems have "snd x \<notin> snd ` set T" by simp
  with del_first_subset [of pid T] have "snd x \<notin> snd ` set (del_first pid T)" by blast
  with Cons x show ?case by simp
qed

lemma tracks_insert_fail:
  "tracks s T \<Longrightarrow> tracks (snd (process_add (env\<lparr>malloc_ret := None\<rparr>) nm pid bg s)) T"
  by (simp add: tracks_def process_add_def print_error_def emit_def table_def pids_def)

lemma tracks_insert:
  assumes t: "tracks s T" and a: "a \<notin> fst ` set T" and p: "pid \<notin> snd ` set T"
  shows "tracks (snd (process_add (env\<lparr>malloc_ret := Some a\<rparr>) nm pid bg s)) ((a, pid) # T)"
proof -
  from t a have n: "a \<notin> live s" by (simp add: tracks_def)
  from t have tb: "table s (map fst T)" by (simp add: tracks_def)
  have m: "malloc_ret (env\<lparr>malloc_ret := Some a\<rparr>) = Some a" by simp
  from process_add_table [OF tb m n, of nm pid bg] obtain s1 where
    add: "process_add (env\<lparr>malloc_ret := Some a\<rparr>) nm pid bg s = (0, s1)"
    and t1: "table s1 (a # map fst T)" and j: "job_of (heap s1 a) = (nm, pid, - 1)"
    and o: "\<forall>x. x \<noteq> a \<longrightarrow> heap s1 x = heap s x" and l: "live s1 = insert a (live s)"
    by blast
  from a have "a \<notin> set (map fst T)" by simp
  with o have "pids s1 (map fst T) = pids s (map fst T)"
    by (auto simp: pids_def)
  with t j have "pids s1 (a # map fst T) = pid # map snd T"
    by (simp add: tracks_def pids_def job_of_def)
  with t t1 l p add show ?thesis
    by (simp add: tracks_def)
qed

lemma tracks_remove:
  assumes t: "tracks s T"
  shows "\<exists>r s'. process_remove_from_list pid s = Some (r, s') \<and> tracks s' (del_first pid T)"
proof -
  let ?as = "map fst T"
  from t have tb: "table s ?as" and ps: "pids s ?as = map snd T" and l: "live s = fst ` set T"
    and d: "distinct (map snd T)"
    by (simp_all add: tracks_def)
  from ps have del: "del_pid (heap s) pid ?as = map fst (del_first pid T)"
    by (rule del_pid_del_first)
  from process_remove_from_list_table [OF tb, of pid] obtain r s' where
    r: "process_remove_from_list pid s = Some (r, s')"
    and t': "table s' (map fst (del_first pid T))"
    and j: "\<forall>x. job_of (heap s' x) = job_of (heap s x)"
    and l': "live s' = live s - (set ?as - set (map fst (del_first pid T)))"
    by (auto simp: del)
  from j have pid_eq: "process_id (heap s' x) = process_id (heap s x)" for x
    by (metis job_of_def prod.inject)
  have sub: "set (del_first pid T) \<subseteq> set T" by (rule del_first_subset)
  have "pids s' (map fst (del_first pid T)) = map snd (del_first pid T)"
  proof -
    have "\<forall>x \<in> set T. process_id (heap s (fst x)) = snd x"
      using ps by (induction T) (auto simp: pids_def)
    with sub have "\<forall>x \<in> set (del_first pid T). process_id (heap s (fst x)) = snd x"
      by blast
    then show ?thesis
      by (simp add: pids_def pid_eq)
  qed
  moreover from l l' sub have "live s' = fst ` set (del_first pid T)"
    by auto
  moreover from d have "distinct (map snd (del_first pid T))"
    by (rule del_first_distinct)
  ultimately show ?thesis
    using r t' by (auto simp: tracks_def)
qed

lemma run_ops_tracks:
  "tracks s T \<Longrightarrow> admissible ops T \<Longrightarrow>
   \<exists>s' T'. run_ops env ops s = Some s' \<and> tracks s' T' \<and>
      snd ` set T' = tracked_pids ops (snd ` set T)"
proof (induction ops T arbitrary: s rule: admissible.induct)
  case (1 T)
  then show ?case by auto
next
  case (2 nm pid xs T)
  from \<open>tracks s T\<close> have "tracks (snd (process_add (env\<lparr>malloc_ret := None\<rparr>) nm pid 1 s)) T"
    by (rule tracks_insert_fail)
  with 2 show ?case by simp
next
  case (3 a nm pid xs T)
  then have "tracks (snd (process_add (env\<lparr>malloc_ret := Some a\<rparr>) nm pid 1 s)) ((a, pid) # T)"
    by (intro tracks_insert) simp_all
  with 3 have "\<exists>s' T'. run_ops env xs (snd (process_add (env\<lparr>malloc_ret := Some a\<rparr>) nm pid 1 s)) = Some s' \<and>
      tracks s' T' \<and> snd ` set T' = tracked_pids xs (snd ` set ((a, pid) # T))"
    by (intro "3.IH") simp_all
  then show ?case by simp
next
  case (4 pid xs T)
  from tracks_remove [OF \<open>tracks s T\<close>, of pid] obtain r s1 where
    r: "process_remove_from_list pid s = Some (r, s1)" and t1: "tracks s1 (del_first pid T)"
    by blast
  from \<open>tracks s T\<close> have "snd ` set (del_first pid T) = snd ` set T - {pid}"
    by (simp add: tracks_def del_first_pids)
  moreover from 4 t1 have "\<exists>s' T'. run_ops env xs s1 = Some s' \<and> tracks s' T' \<and>
      snd ` set T' = tracked_pids xs (snd ` set (del_first pid T))"
    by (intro "4.IH") simp_all
  ultimately show ?case using r by simp
qed

lemma admissible_take: "admissible ops T \<Longrightarrow> admissible (take n ops) T"
proof (induction ops T arbitrary: n rule: admissible.induct)
  case (1 T)
  then show ?case by simp
next
  case (2 nm pid xs T)
  then show ?case by (cases n) simp_all
next
  case (3 a nm pid xs T)
  then show ?case by (cases n) simp_all
next
  case (4 pid xs T)
  then show ?case by (cases n) simp_all
qed

lemma job_pids_job_lines: "job_pids (job_lines h lid as) = map (\<lambda>a. process_id (h a)) as"
  by (induction as arbitrary: lid) auto

lemma process_bring_to_fg_total:
  assumes "table s as"
  shows "\<exists>r s'. process_bring_to_fg lid s = Some (r, s')"
proof (cases "\<exists>a \<in> set as. list_id (heap s a) = lid")
  case True
  then obtain pre a post where split: "as = pre @ a # post" and a: "list_id (heap s a) = lid"
    and pre: "\<forall>x \<in> set pre. list_id (heap s x) \<noteq> lid"
    using split_list_first_prop [of as "\<lambda>a. list_id (heap s a) = lid"] by blast
  from process_remove_from_list_table [OF assms, of "process_id (heap s a)"]
  obtain r s3 where "process_remove_from_list (process_id (heap s a)) s = Some (r, s3)"
    by blast
  with assms split pre a
  have "process_bring_to_fg lid s = Some (process_id (heap (access a s3) a), access a s3)"
    by (intro process_bring_to_fg_hit) simp_all
  then show ?thesis by blast
next
  case False
  show ?thesis
  proof (cases "as = []")
    case True
    with assms show ?thesis by (simp add: process_bring_to_fg_empty)
  next
    case ne: False
    from False have "\<forall>a \<in> set as. list_id (heap s a) \<noteq> lid" by blast
    with assms ne have "process_bring_to_fg lid s = Some (- 1, s)"
      by (rule process_bring_to_fg_miss)
    then show ?thesis by blast
  qed
qed

subsection \<open>The loop of \<open>execute_exit\<close>\<close>

text \<open>
  From the third round on, \<open>process_list\<close> points to the live node before \<open>node\<close>,
  and each round removes that node. The first round leaves \<open>process_list\<close> at the node it
  has freed, and the second round removes that node once more.
\<close>

lemma table_distinct: "table s as \<Longrightarrow> distinct as"
  unfolding table_def by (blast dest: chain_distinct)

lemma chain_last: "chain h p as \<Longrightarrow> as \<noteq> [] \<Longrightarrow> next_node (h (last as)) = None"
  by (induction as arbitrary: p) auto

lemma distinct_last_butlast: "distinct as \<Longrightarrow> as \<noteq> [] \<Longrightarrow> last as \<notin> set (butlast as)"
  by (induction as) (auto dest: in_set_butlastD)

lemma unlink_head_state:
  "a \<in> live s \<Longrightarrow>
   unlink None a s = s\<lparr>live := live s - {a}, process_list := next_node (heap s a),
                         trace := trace s @ [Free a]\<rparr>"
  by (rule shell.equality) (simp_all add: unlink_def free_def emit_def)

lemma exit_loop_regular:
  "table s (b # as) \<Longrightarrow>
   exit_loop (next_node (heap s b)) s =
     Some (Return () (s\<lparr>live := live s - set (butlast (b # as)),
                         process_list := Some (last (b # as)),
                         trace := trace s @ map Free (butlast (b # as))\<rparr>))"
proof (induction as arbitrary: s b)
  case Nil
  then have "next_node (heap s b) = None" and "process_list s = Some b"
    by (simp_all add: table_def)
  then show ?case
    by (subst exit_loop.simps) simp
next
  case (Cons a as)
  let ?u = "unlink None b s"
  from Cons.prems have b: "b \<in> live s" and pl: "process_list s = Some b"
    and nx: "next_node (heap s b) = Some a"
    by (simp_all add: table_def)
  from Cons.prems have rm: "process_remove_from_list (process_id (heap s b)) s = Some (0, ?u)"
    using process_remove_from_list_hit [of s "[]" b "a # as" "process_id (heap s b)"] by simp
  from Cons.prems have tu: "table ?u (a # as)"
    by (rule table_unlink_head)
  then have a: "a \<in> live ?u" and plu: "process_list ?u = Some a"
    by (simp_all add: table_def)
  from b nx have ust: "?u = s\<lparr>live := live s - {b}, process_list := Some a,
      trace := trace s @ [Free b]\<rparr>"
    by (simp add: unlink_head_state)
  from plu have same: "?u\<lparr>process_list := Some a\<rparr> = ?u"
    by simp
  from tu have "exit_loop (next_node (heap ?u a)) ?u =
      Some (Return () (?u\<lparr>live := live ?u - set (butlast (a # as)),
                           process_list := Some (last (a # as)),
                           trace := trace ?u @ map Free (butlast (a # as))\<rparr>))"
    by (rule Cons.IH)
  moreover have "?u\<lparr>live := live ?u - set (butlast (a # as)),
        process_list := Some (last (a # as)),
        trace := trace ?u @ map Free (butlast (a # as))\<rparr> =
      s\<lparr>live := live s - set (butlast (b # a # as)),
        process_list := Some (last (b # a # as)),
        trace := trace s @ map Free (butlast (b # a # as))\<rparr>"
  proof -
    have "live s - {b} - set (butlast (a # as)) = live s - set (butlast (b # a # as))"
      by auto
    then show ?thesis
      by (subst (1 2 3) ust) (rule shell.equality, simp_all)
  qed
  ultimately have ih: "exit_loop (next_node (heap ?u a)) ?u =
      Some (Return () (s\<lparr>live := live s - set (butlast (b # a # as)),
                         process_list := Some (last (b # a # as)),
                         trace := trace s @ map Free (butlast (b # a # as))\<rparr>))"
    by (simp only:)
  show ?case
    apply (subst exit_loop.simps)
    apply (simp only: nx pl option.case)
    apply (simp only: Let_def access_live [OF b] rm option.case prod.case same access_live [OF a] ih)
    done
qed


lemma exit_loop_single:
  assumes "table s [a]"
  shows "exit_loop (process_list s) s =
     Some (Return () (s\<lparr>live := live s - {a}, process_list := Some a,
                         faults := faults s @ [Invalid_access a],
                         trace := trace s @ [Free a]\<rparr>))"
proof -
  from assms have a: "a \<in> live s" and pl: "process_list s = Some a"
    and nx: "next_node (heap s a) = None"
    by (simp_all add: table_def)
  from assms have rm: "process_remove_from_list (process_id (heap s a)) s =
      Some (0, unlink None a s)"
    using process_remove_from_list_hit [of s "[]" a "[]" "process_id (heap s a)"] by simp
  have "exit_loop (Some a) s =
      Some (Return () (s\<lparr>live := live s - {a}, process_list := Some a,
                         faults := faults s @ [Invalid_access a],
                         trace := trace s @ [Free a]\<rparr>))"
    apply (subst exit_loop.simps)
    apply (simp add: pl a rm Let_def)
    apply (subst exit_loop.simps)
    apply (simp add: unlink_head_state access_def a nx)
    done
  with pl show ?thesis by simp
qed

lemma exit_loop_several:
  assumes t: "table s (a # b # as)"
  shows "exit_loop (process_list s) s =
     Some (Return () (s\<lparr>live := live s - set (butlast (a # b # as)),
                         process_list := Some (last (b # as)),
                         faults := faults s @ [Invalid_access a, Invalid_access a,
                           Invalid_access a, Invalid_access a, Invalid_free a],
                         trace := trace s @ [Free a, Free a] @ map Free (butlast (b # as))\<rparr>))"
proof -
  let ?f = "faults s @ [Invalid_access a, Invalid_access a, Invalid_access a, Invalid_access a,
      Invalid_free a]"
  let ?s6 = "s\<lparr>live := live s - {a}, process_list := Some b, faults := ?f,
      trace := trace s @ [Free a, Free a]\<rparr>"
  from t have a: "a \<in> live s" and pl: "process_list s = Some a"
    and nx: "next_node (heap s a) = Some b" and b: "b \<in> live s"
    and c: "chain (heap s) (Some b) (b # as)" and l: "set (b # as) \<subseteq> live s"
    by (simp_all add: table_def)
  from t have "distinct (a # b # as)"
    by (rule table_distinct)
  then have ab: "a \<noteq> b" and na: "a \<notin> set (b # as)" by auto
  from t have rm: "process_remove_from_list (process_id (heap s a)) s =
      Some (0, unlink None a s)"
    using process_remove_from_list_hit [of s "[]" a "b # as" "process_id (heap s a)"] by simp
  from c l na have t6: "table ?s6 (b # as)"
    by (auto simp: table_def)
  have reg: "exit_loop (next_node (heap s b)) ?s6 =
      Some (Return () (s\<lparr>live := live s - set (butlast (a # b # as)),
                         process_list := Some (last (b # as)), faults := ?f,
                         trace := trace s @ [Free a, Free a] @ map Free (butlast (b # as))\<rparr>))"
  proof -
    have "live s - {a} - set (butlast (b # as)) = live s - set (butlast (a # b # as))"
      by auto
    then have "?s6\<lparr>live := live ?s6 - set (butlast (b # as)),
          process_list := Some (last (b # as)),
          trace := trace ?s6 @ map Free (butlast (b # as))\<rparr> =
        s\<lparr>live := live s - set (butlast (a # b # as)),
          process_list := Some (last (b # as)), faults := ?f,
          trace := trace s @ [Free a, Free a] @ map Free (butlast (b # as))\<rparr>"
      by (intro shell.equality) simp_all
    with exit_loop_regular [OF t6] show ?thesis by simp
  qed
  let ?s4 = "s\<lparr>live := live s - {a}, process_list := Some a,
      faults := faults s @ [Invalid_access a], trace := trace s @ [Free a]\<rparr>"
  have step1: "exit_loop (Some a) s = exit_loop (Some b) ?s4"
    apply (subst exit_loop.simps)
    apply (simp add: pl a rm Let_def)
    apply (simp add: unlink_head_state access_def a nx)
    apply (rule arg_cong [of _ _ "exit_loop (Some b)"])
    apply (rule shell.equality; simp)
    done
  have rm2: "process_remove_from_list (process_id (heap s a)) (access a ?s4) = Some (0, ?s6)"
    unfolding process_remove_from_list_def
    apply (simp add: access_def)
    apply (subst remove_loop.simps)
    apply (simp add: access_def free_def emit_def nx Let_def)
    done
  have step2: "exit_loop (Some b) ?s4 = exit_loop (next_node (heap s b)) ?s6"
    apply (subst exit_loop.simps)
    apply (simp only: option.case Let_def)
    apply (subgoal_tac "process_list ?s4 = Some a \<and> heap (access a ?s4) a = heap s a")
     apply (simp only: option.case rm2 prod.case)
     apply (simp add: access_def b ab [symmetric])
     apply (rule arg_cong [of _ _ "exit_loop (next_node (heap s b))"])
     apply (rule shell.equality; simp)
    apply simp
    done
  from step1 step2 reg
  have "exit_loop (Some a) s =
      Some (Return () (s\<lparr>live := live s - set (butlast (a # b # as)),
                         process_list := Some (last (b # as)), faults := ?f,
                         trace := trace s @ [Free a, Free a] @ map Free (butlast (b # as))\<rparr>))"
    by (simp only:)
  with pl show ?thesis by simp
qed

subsection \<open>Tables that sequences of operations reach\<close>

text \<open>
  Every admissible sequence, run from an empty table, ends in a table with pairwise distinct
  pids; the table of two jobs is the result of two insertions.
\<close>

lemma run_ops_table_distinct:
  assumes "process_list s0 = None" and "live s0 = {}" and "admissible ops []"
  shows "\<exists>s as. run_ops env ops s0 = Some s \<and> table s as \<and> distinct (pids s as)"
proof -
  from assms(1,2) have "tracks s0 []"
    by (simp add: tracks_def table_def pids_def)
  from run_ops_tracks [OF this assms(3), of env] obtain s T where
    "run_ops env ops s0 = Some s" and "tracks s T"
    by blast
  then have "run_ops env ops s0 = Some s \<and> table s (map fst T) \<and> distinct (pids s (map fst T))"
    by (simp add: tracks_def)
  then show ?thesis by blast
qed

lemma two_jobs_reachable:
  "admissible [Insert (Some 3) (Some ''a'') 5, Insert (Some 4) (Some ''b'') 6] [] \<and>
   run_ops an_os [Insert (Some 3) (Some ''a'') 5, Insert (Some 4) (Some ''b'') 6] empty_shell =
     Some (two_jobs\<lparr>trace := [Malloc (Some 3), Malloc (Some 4)]\<rparr>)"
  by (simp add: process_add_def emit_def empty_shell_def two_jobs_def an_os_def insert_commute)

subsection \<open>The processes of a pipeline in time\<close>

lemma proj_append [simp]: "proj p (xs @ ys) = proj p xs @ proj p ys"
  by (simp add: proj_def)

lemma proj_Cons_same [simp]: "proj p ((p, a) # tline) = a # proj p tline"
  by (simp add: proj_def)

lemma in_proj: "a \<in> set (proj p tline) \<Longrightarrow> (p, a) \<in> set tline"
  by (auto simp: proj_def)

lemma waits_ok_split:
  "waits_ok seen (u @ x # w) \<Longrightarrow> awaited (snd x) = Some c \<Longrightarrow> (c, Terminated) \<in> set (seen @ u)"
proof (induction u arbitrary: seen)
  case Nil
  then show ?case by simp
next
  case (Cons y u)
  then have "(c, Terminated) \<in> set ((seen @ [y]) @ u)"
    by (intro Cons.IH) simp_all
  then show ?case by simp
qed

text \<open>Where a mark can stand in a list of calls followed by an ending and the termination.\<close>

lemma ending_position:
  "cs @ [m, t] = xs @ y # rest \<Longrightarrow> y \<notin> set cs \<Longrightarrow> y \<noteq> t \<Longrightarrow> xs = cs \<and> y = m"
proof (induction cs arbitrary: xs)
  case Nil
  then show ?case by (cases xs) (auto simp: Cons_eq_append_conv)
next
  case (Cons c cs)
  then show ?case by (cases xs) auto
qed

lemma termination_position:
  "cs @ [m, t] = xs @ t # rest \<Longrightarrow> t \<notin> set cs \<Longrightarrow> m \<noteq> t \<Longrightarrow> xs = cs @ [m]"
proof (induction cs arbitrary: xs)
  case Nil
  then show ?case by (cases xs) (auto simp: Cons_eq_append_conv)
next
  case (Cons c cs)
  then show ?case by (cases xs) auto
qed

lemma ending_not_Terminated [simp]: "ending out \<noteq> Terminated"
  by (cases out) simp_all

lemma Terminated_not_Call [simp]: "Terminated \<notin> set (map Call cs)" "Halts h \<notin> set (map Call cs)"
  by auto

text \<open>The two processes below the shell, each by its own run of \<open>execute_pipe\<close>.\<close>

lemma execute_pipe_first_command:
  assumes "pipe_ret env = 0" and "fork_ret env = 0" and "fork_ret2 env = 0"
    and "split_pipe rest = Some (l, pipe_args)" and "execvp_ret env = None"
  shows "ending (execute_pipe env (a0 # rest) bg_flag s) =
     Halts (Image_replaced (Some a0) (a0 # l))"
  using assms by (simp add: execute_pipe_def Let_def)

lemma execute_pipe_second_command:
  assumes "pipe_ret env = 0" and "fork_ret env = 0" and "0 < fork_ret2 env"
    and "split_pipe rest = Some (l, pipe_args)"
    and "ending (execute_pipe env (a0 # rest) bg_flag s) = Halts (Image_replaced c argv)"
  shows "c = arg pipe_args 0 \<and> argv = pipe_args \<and>
     Waitpid (fork_ret2 env) \<in>
       set (drop (length (trace s)) (trace (final (execute_pipe env (a0 # rest) bg_flag s))))"
  using assms
  by (auto simp: execute_pipe_def process_add_def print_error_def Let_def execvp_failed_def
      split: option.splits if_splits)

section \<open>The claims\<close>

subsection \<open>C1: lookup by display index after an enumeration\<close>

text \<open>
  C1, counterexample. The claim: \<open>process_bring_to_fg\<close> called with a stale index, one of
  an enumeration that a mutation has followed, returns absent (\<open>-1\<close>) and removes no
  record. The function compares its argument with the \<open>list_id\<close> stored in the nodes, and
  only \<open>process_print_list\<close> writes these; no removal or insertion resets them. In the
  table of two jobs the enumeration gives index \<open>0\<close> to the job of pid 6 and index \<open>1\<close> to
  the job of pid 5. After the removal of the job of pid 6 the index \<open>1\<close> is stale; the call
  with it returns \<open>5\<close> and takes the last record out of the table.
\<close>

theorem process_bring_to_fg_earlier_index:
  "process_print_list two_jobs = Some two_jobs_listed \<and>
   jobs two_jobs_listed [4, 3] = [(Some ''b'', 6, 0), (Some ''a'', 5, 1)] \<and>
   process_remove_from_list 6 two_jobs_listed = Some (0, one_job_left) \<and>
   table one_job_left [3] \<and> jobs one_job_left [3] = [(Some ''a'', 5, 1)] \<and>
   process_bring_to_fg 1 one_job_left = Some (5, no_job_left) \<and>
   table no_job_left []"
proof -
  have p: "process_print_list two_jobs = Some two_jobs_listed"
    unfolding two_jobs_listed_def using two_jobs_table by (rule process_print_list_table)
  from two_jobs_table have t: "table two_jobs_listed [4, 3]"
    by (simp add: two_jobs_listed_def table_printed)
  have j: "jobs two_jobs_listed [4, 3] = [(Some ''b'', 6, 0), (Some ''a'', 5, 1)]"
    by (simp add: jobs_def job_of_def printed_def two_jobs_listed_def two_jobs_def)
  then have f: "process_id (heap two_jobs_listed 4) = 6" "process_id (heap two_jobs_listed 3) = 5"
    "list_id (heap two_jobs_listed 3) = 1"
    by (simp_all add: jobs_def job_of_def)
  from t f have r: "process_remove_from_list 6 two_jobs_listed = Some (0, one_job_left)"
    using process_remove_from_list_hit [of two_jobs_listed "[]" 4 "[3]" 6]
    by (simp add: one_job_left_def)
  from t have t1: "table one_job_left [3]"
    using table_unlink_head [of two_jobs_listed 4 "[3]"] by (simp add: one_job_left_def)
  from j have j1: "jobs one_job_left [3] = [(Some ''a'', 5, 1)]"
    by (simp add: one_job_left_def jobs_def unlink_fields)
  then have f1: "process_id (heap one_job_left 3) = 5" "list_id (heap one_job_left 3) = 1"
    by (simp_all add: jobs_def job_of_def)
  from t1 f1 have r1: "process_remove_from_list 5 one_job_left = Some (0, unlink None 3 one_job_left)"
    using process_remove_from_list_hit [of one_job_left "[]" 3 "[]" 5] by simp
  from t1 f1 r1 have "process_bring_to_fg 1 one_job_left =
      Some (process_id (heap no_job_left 3), no_job_left)"
    using process_bring_to_fg_hit [of one_job_left "[]" 3 "[]" 1 0 "unlink None 3 one_job_left"]
    by (simp add: no_job_left_def)
  moreover have "job_of (heap no_job_left 3) = job_of (heap one_job_left 3)"
    by (simp add: no_job_left_def unlink_fields)
  with f1 have "process_id (heap no_job_left 3) = 5"
    by (simp add: job_of_def)
  ultimately have b: "process_bring_to_fg 1 one_job_left = Some (5, no_job_left)"
    by simp
  from t1 have t2: "table no_job_left []"
    using table_unlink_head [of one_job_left 3 "[]"] by (simp add: no_job_left_def)
  from p j r t1 j1 b t2 show ?thesis by (intro conjI)
qed

text \<open>
  C1, as amended. Take a table whose records have pairwise distinct pids, as the tables of
  the shell have (\<open>run_ops_table_distinct\<close>), and list it. With no mutation in between, the
  call with the index \<open>k\<close> of that enumeration takes exactly the \<open>k\<close>-th node out of the
  table, frees it and leaves the other records as they were; a call with an index that the
  enumeration did not assign (below \<open>0\<close> or not below the number of records) returns \<open>-1\<close>
  and leaves the table as it was. Nothing is said about indices of earlier enumerations.
  The value that the successful call returns is read from the node after it was freed
  (the conjunct about \<open>faults\<close>); in this model, where a freed block keeps its contents, it
  is the pid of the removed record.
\<close>

theorem process_bring_to_fg_after_print_list:
  assumes "table s0 as" and "distinct (pids s0 as)"
  shows "\<exists>s. process_print_list s0 = Some s \<and> table s as \<and>
     map (\<lambda>a. list_id (heap s a)) as = map int [0..<length as] \<and>
     (\<forall>k < length as. \<exists>s'.
        process_bring_to_fg (int k) s = Some (process_id (heap s (as ! k)), s') \<and>
        table s' (take k as @ drop (Suc k) as) \<and>
        jobs s' (take k as @ drop (Suc k) as) = jobs s (take k as @ drop (Suc k) as) \<and>
        live s' = live s - {as ! k} \<and>
        faults s' = faults s @ [Invalid_access (as ! k)]) \<and>
     (\<forall>lid. lid < 0 \<or> int (length as) \<le> lid \<longrightarrow>
        (\<exists>s'. process_bring_to_fg lid s = Some (- 1, s') \<and> table s' as \<and>
           jobs s' as = jobs s as \<and> live s' = live s \<and> faults s' = faults s))"
proof -
  let ?s = "printed 0 as s0"
  have p: "process_print_list s0 = Some ?s"
    using assms(1) by (rule process_print_list_table)
  have t: "table ?s as"
    using assms(1) by (simp add: table_printed)
  have ix: "list_id (heap ?s (as ! k)) = int k" if "k < length as" for k
    using assms(1) that by (rule printed_list_id)
  have ixs: "map (\<lambda>a. list_id (heap ?s a)) as = map int [0..<length as]"
    by (rule nth_equalityI) (simp_all add: ix)
  have d: "distinct (pids ?s as)"
    using assms(2) by (simp add: printed_pids)
  have hit: "\<exists>s'. process_bring_to_fg (int k) ?s = Some (process_id (heap ?s (as ! k)), s') \<and>
        table s' (take k as @ drop (Suc k) as) \<and>
        jobs s' (take k as @ drop (Suc k) as) = jobs ?s (take k as @ drop (Suc k) as) \<and>
        live s' = live ?s - {as ! k} \<and>
        faults s' = faults ?s @ [Invalid_access (as ! k)]" if k: "k < length as" for k
  proof -
    from k have split: "as = take k as @ as ! k # drop (Suc k) as"
      by (rule id_take_nth_drop)
    have "\<forall>x \<in> set (take k as). list_id (heap ?s x) \<noteq> int k"
    proof
      fix x
      assume "x \<in> set (take k as)"
      then obtain j where "j < length (take k as)" and "x = take k as ! j"
        by (auto simp: in_set_conv_nth)
      with k have "j < k" and "x = as ! j" by simp_all
      with k show "list_id (heap ?s x) \<noteq> int k" by (simp add: ix)
    qed
    moreover from t split have "table ?s (take k as @ as ! k # drop (Suc k) as)" by simp
    moreover from d split have "distinct (pids ?s (take k as @ as ! k # drop (Suc k) as))" by simp
    then have "\<forall>x \<in> set (take k as). process_id (heap ?s x) \<noteq> process_id (heap ?s (as ! k))"
      by (rule distinct_pids_first)
    moreover from k have "list_id (heap ?s (as ! k)) = int k" by (rule ix)
    ultimately show ?thesis
      using process_bring_to_fg_unlinks [of ?s "take k as" "as ! k" "drop (Suc k) as" "int k"]
      by blast
  qed
  have miss: "\<exists>s'. process_bring_to_fg lid ?s = Some (- 1, s') \<and> table s' as \<and>
           jobs s' as = jobs ?s as \<and> live s' = live ?s \<and> faults s' = faults ?s"
    if lid: "lid < 0 \<or> int (length as) \<le> lid" for lid
  proof (cases "as = []")
    case True
    with t have "process_bring_to_fg lid ?s = Some (- 1, print_error ERROR_NO_SUCH_PROC ?s)"
      by (simp add: process_bring_to_fg_empty)
    moreover from t have "table (print_error ERROR_NO_SUCH_PROC ?s) as"
      by (simp add: table_def print_error_def emit_def)
    ultimately show ?thesis
      by (simp add: jobs_def print_error_def emit_def)
  next
    case False
    have "\<forall>a \<in> set as. list_id (heap ?s a) \<noteq> lid"
    proof
      fix a
      assume "a \<in> set as"
      then obtain j where "j < length as" and "a = as ! j"
        by (auto simp: in_set_conv_nth)
      with lid show "list_id (heap ?s a) \<noteq> lid" by (auto simp: ix)
    qed
    with t False have "process_bring_to_fg lid ?s = Some (- 1, ?s)"
      by (rule process_bring_to_fg_miss)
    with t show ?thesis by simp
  qed
  from p t ixs hit miss show ?thesis by blast
qed

text \<open>C1, witness: the table of two jobs, index \<open>1\<close> and the unassigned index \<open>2\<close>.\<close>

theorem process_bring_to_fg_after_print_list_witness:
  "table two_jobs [4, 3] \<and> distinct (pids two_jobs [4, 3]) \<and>
   (\<exists>s s' s''. process_print_list two_jobs = Some s \<and>
      process_bring_to_fg 1 s = Some (5, s') \<and> table s' [4] \<and> live s' = {4} \<and>
      faults s' = [Invalid_access 3] \<and>
      process_bring_to_fg 2 s = Some (- 1, s'') \<and> table s'' [4, 3])"
proof -
  have d: "distinct (pids two_jobs [4, 3])"
    by (simp add: two_jobs_pids)
  from process_bring_to_fg_after_print_list [OF two_jobs_table d] obtain s where
    p: "process_print_list two_jobs = Some s"
    and hit: "\<forall>k < length [4, 3 :: nat]. \<exists>s'.
        process_bring_to_fg (int k) s = Some (process_id (heap s ([4, 3] ! k)), s') \<and>
        table s' (take k [4, 3] @ drop (Suc k) [4, 3]) \<and>
        jobs s' (take k [4, 3] @ drop (Suc k) [4, 3]) = jobs s (take k [4, 3] @ drop (Suc k) [4, 3]) \<and>
        live s' = live s - {[4, 3] ! k} \<and>
        faults s' = faults s @ [Invalid_access ([4, 3] ! k)]"
    and miss: "\<forall>lid. lid < 0 \<or> int (length [4, 3 :: nat]) \<le> lid \<longrightarrow>
        (\<exists>s'. process_bring_to_fg lid s = Some (- 1, s') \<and> table s' [4, 3] \<and>
           jobs s' [4, 3] = jobs s [4, 3] \<and> live s' = live s \<and> faults s' = faults s)"
    by blast
  from p have e: "process_id (heap s 3) = 5" "faults s = []" "live s = {3, 4}"
    by (auto simp: two_jobs_def process_print_list_def print_loop.simps LIST_ID_FIRST_VAL_def
        emit_def access_def Let_def)
  have "1 < length [4, 3 :: nat]" by simp
  from hit [rule_format, OF this]
  have "\<exists>s'. process_bring_to_fg 1 s = Some (process_id (heap s 3), s') \<and>
        table s' [4] \<and> live s' = live s - {3} \<and> faults s' = faults s @ [Invalid_access 3]"
    by auto
  with e obtain s' where
    "process_bring_to_fg 1 s = Some (5, s')" "table s' [4]" "live s' = {4}"
    "faults s' = [Invalid_access 3]"
    by auto
  moreover from miss [rule_format, of 2] obtain s'' where "process_bring_to_fg 2 s = Some (- 1, s'')" "table s'' [4, 3]"
    by force
  ultimately show ?thesis
    using two_jobs_table d p by blast
qed

subsection \<open>C2: distinct pids\<close>

text \<open>
  C2. For every admissible sequence of insertions and removals, run from a shell without
  jobs, and after every prefix of it: the run ends, the table holds no two records with
  the same pid, the pids in the table are exactly the tracked ones, and
  \<open>process_print_list\<close> prints one line per record with exactly these pids.
\<close>

theorem job_table_distinct_pids:
  assumes "process_list s0 = None" and "live s0 = {}" and "admissible ops []"
  shows "\<forall>n. \<exists>s as. run_ops env (take n ops) s0 = Some s \<and> table s as \<and>
     distinct (pids s as) \<and> set (pids s as) = tracked_pids (take n ops) {} \<and>
     (\<exists>s' lines. process_print_list s = Some s' \<and> trace s' = trace s @ lines \<and>
        job_pids lines = pids s as)"
proof
  fix n
  from assms(1,2) have t0: "tracks s0 []"
    by (simp add: tracks_def table_def pids_def)
  from assms(3) have "admissible (take n ops) []"
    by (rule admissible_take)
  from run_ops_tracks [OF t0 this, of env]
  obtain s T where run: "run_ops env (take n ops) s0 = Some s" and t: "tracks s T"
    and tr: "snd ` set T = tracked_pids (take n ops) {}"
    by auto
  let ?as = "map fst T"
  from t have tb: "table s ?as" and ps: "pids s ?as = map snd T" and d: "distinct (map snd T)"
    by (simp_all add: tracks_def)
  from tb have "process_print_list s = Some (printed 0 ?as s)"
    by (rule process_print_list_table)
  moreover have "trace (printed 0 ?as s) = trace s @ job_lines (heap s) 0 ?as"
    by (simp add: printed_def)
  moreover have "job_pids (job_lines (heap s) 0 ?as) = pids s ?as"
    by (simp add: job_pids_job_lines pids_def)
  ultimately have "\<exists>s' lines. process_print_list s = Some s' \<and> trace s' = trace s @ lines \<and>
        job_pids lines = pids s ?as"
    by blast
  moreover from ps d have "distinct (pids s ?as)" by simp
  moreover from ps tr have "set (pids s ?as) = tracked_pids (take n ops) {}" by simp
  ultimately show "\<exists>s as. run_ops env (take n ops) s0 = Some s \<and> table s as \<and>
     distinct (pids s as) \<and> set (pids s as) = tracked_pids (take n ops) {} \<and>
     (\<exists>s' lines. process_print_list s = Some s' \<and> trace s' = trace s @ lines \<and>
        job_pids lines = pids s as)"
    using run tb by blast
qed

text \<open>C2, witness: two insertions, the removal of the first job, and an insertion that fails.\<close>

theorem job_table_distinct_pids_witness:
  "process_list empty_shell = None \<and> live empty_shell = {} \<and>
   admissible [Insert (Some 3) (Some ''a'') 5, Insert (Some 4) (Some ''b'') 6, Remove 5,
     Insert None (Some ''c'') 7] [] \<and>
   (\<exists>s as. run_ops an_os [Insert (Some 3) (Some ''a'') 5, Insert (Some 4) (Some ''b'') 6,
        Remove 5, Insert None (Some ''c'') 7] empty_shell = Some s \<and>
      table s as \<and> distinct (pids s as) \<and> set (pids s as) = {6} \<and>
      (\<exists>s' lines. process_print_list s = Some s' \<and> trace s' = trace s @ lines \<and>
         job_pids lines = pids s as))"
proof -
  let ?ops = "[Insert (Some 3) (Some ''a'') 5, Insert (Some 4) (Some ''b'') 6, Remove 5,
     Insert None (Some ''c'') 7]"
  have p: "process_list empty_shell = None" and l: "live empty_shell = {}"
    by (simp_all add: empty_shell_def)
  have a: "admissible ?ops []" by simp
  have tk: "take 4 ?ops = ?ops" by simp
  have tr: "tracked_pids ?ops {} = {6}" by auto
  from job_table_distinct_pids [OF p l a, of an_os]
  have "\<exists>s as. run_ops an_os (take 4 ?ops) empty_shell = Some s \<and> table s as \<and>
     distinct (pids s as) \<and> set (pids s as) = tracked_pids (take 4 ?ops) {} \<and>
     (\<exists>s' lines. process_print_list s = Some s' \<and> trace s' = trace s @ lines \<and>
        job_pids lines = pids s as)"
    by (rule spec)
  then have "\<exists>s as. run_ops an_os ?ops empty_shell = Some s \<and> table s as \<and>
     distinct (pids s as) \<and> set (pids s as) = {6} \<and>
     (\<exists>s' lines. process_print_list s = Some s' \<and> trace s' = trace s @ lines \<and>
        job_pids lines = pids s as)"
    by (simp only: tk tr)
  with p l a show ?thesis by (intro conjI)
qed

subsection \<open>C3: the result of removal by pid\<close>

text \<open>
  C3. The claim: \<open>process_remove_from_list\<close> removes the first record with the pid, and
  its result tells whether such a record existed. The function's comment says the same
  (\<open>0\<close>: node was removed, \<open>-1\<close>: node not found). On every table the call ends and
  takes the first node with the pid, if there is one, out of the table, leaving the other
  records as they were. Its result, however, is \<open>-1\<close> when the table is empty and \<open>0\<close>
  otherwise, also when no record has the pid and the state stays as it was: the statement
  after the loop is \<open>return 0\<close>.
\<close>

theorem process_remove_from_list_result:
  assumes "table s as"
  shows "\<exists>s'. process_remove_from_list pid s = Some (if as = [] then - 1 else 0, s') \<and>
     table s' (del_pid (heap s) pid as) \<and>
     jobs s' (del_pid (heap s) pid as) = jobs s (del_pid (heap s) pid as) \<and>
     (as \<noteq> [] \<and> pid \<notin> set (pids s as) \<longrightarrow> s' = s)"
proof (cases "\<exists>a \<in> set as. process_id (heap s a) = pid")
  case True
  then obtain pre a post where split: "as = pre @ a # post"
    and pre: "\<forall>x \<in> set pre. process_id (heap s x) \<noteq> pid" and a: "process_id (heap s a) = pid"
    and del: "del_pid (heap s) pid as = pre @ post"
    using del_pid_split [of as "heap s" pid] by blast
  let ?u = "unlink (if pre = [] then None else Some (last pre)) a s"
  from assms split pre a have r: "process_remove_from_list pid s = Some (0, ?u)"
    by (simp add: process_remove_from_list_hit)
  from assms split have "table ?u (pre @ post)"
    by (simp add: table_unlink)
  then have t: "table ?u (del_pid (heap s) pid as)"
    by (simp only: del)
  have j: "jobs ?u (del_pid (heap s) pid as) = jobs s (del_pid (heap s) pid as)"
    by (rule jobs_unlink)
  from True have p: "pid \<in> set (pids s as)"
    by (auto simp: pids_def)
  from split have ne: "as \<noteq> []" by simp
  from r t j p ne show ?thesis by auto
next
  case False
  then have del: "del_pid (heap s) pid as = as"
    by (simp add: del_pid_miss)
  show ?thesis
  proof (cases "as = []")
    case True
    with assms show ?thesis
      by (simp add: process_remove_from_list_empty print_error_def emit_def table_def jobs_def)
  next
    case ne: False
    from False have "\<forall>a \<in> set as. process_id (heap s a) \<noteq> pid" by blast
    with assms ne have "process_remove_from_list pid s = Some (0, s)"
      by (rule process_remove_from_list_miss)
    with assms ne show ?thesis
      by (simp add: del)
  qed
qed

text \<open>
  C3, witness: on the table of two jobs with the pids 6 and 5, the call with the pid 9
  returns \<open>0\<close> and changes nothing.
\<close>

theorem process_remove_from_list_result_witness:
  "table two_jobs [4, 3] \<and> [4, 3 :: nat] \<noteq> [] \<and> 9 \<notin> set (pids two_jobs [4, 3]) \<and>
   process_remove_from_list 9 two_jobs = Some (0, two_jobs)"
proof -
  have n: "9 \<notin> set (pids two_jobs [4, 3])"
    by (simp add: two_jobs_pids)
  from process_remove_from_list_result [OF two_jobs_table, of 9] n
  have "process_remove_from_list 9 two_jobs = Some (0, two_jobs)"
    by auto
  with two_jobs_table n show ?thesis by simp
qed

subsection \<open>C4: what the middle process of a background pipeline registers\<close>

text \<open>
  C4, counterexample. The claim: the middle process registers its own pid under the name
  of the first command. For \<open>ls | wc\<close> in the background, the middle process (pid 101)
  calls \<open>process_add\<close> with the name \<open>wc\<close> and the pid 102 of its child.
\<close>

theorem execute_pipe_middle_registers_child:
  "execute_pipe p1_os [''ls'', ''|'', ''wc''] 1 empty_shell =
     Halt (Image_replaced (Some ''wc'') [''wc''])
       (snd (process_add p1_os (Some ''wc'') 102 1
          (emit (Waitpid 102) (emit (Dup2 Pipe_read Stdin) (emit (Close Pipe_write) empty_shell))))) \<and>
   getpid_ret p1_os = 101"
  by (simp add: execute_pipe_def p1_os_def arg_def process_add_def Let_def)

text \<open>
  C4, as amended. In the middle process of a background pipeline (the first \<open>fork\<close>
  returned \<open>0\<close>, the second one a pid), when \<open>malloc\<close> succeeds: the process closes the
  write end, redirects its input, waits for its child with \<open>waitpid\<close>, and only then
  allocates a record and puts it at the head of its copy of the table, with the name
  \<open>*pipe_args\<close>, the first word after the separator, and the pid of that child, the
  process that ran the first command. After that it calls \<open>execvp\<close> for the second
  command. When nothing follows the separator the name is \<open>NULL\<close>, the record is added all
  the same, and the process stops in \<open>execvp\<close> on the null pointer.
\<close>

theorem execute_pipe_middle_registration:
  assumes "pipe_ret env = 0" and "fork_ret env = 0" and "0 < fork_ret2 env"
    and "split_pipe rest = Some (l, pipe_args)" and "bg_flag \<noteq> 0"
    and "malloc_ret env = Some new" and "new \<notin> live s" and "table s as"
  shows "\<exists>s'. execute_pipe env (a0 # rest) bg_flag s =
       (case arg pipe_args 0 of
          None \<Rightarrow> Halt Segfault s'
        | Some c \<Rightarrow>
            (case execvp_ret env of
               None \<Rightarrow> Halt (Image_replaced (Some c) pipe_args) s'
             | Some errno \<Rightarrow> Return 0 (execvp_failed errno s'))) \<and>
     table s' (new # as) \<and>
     job_of (heap s' new) = (arg pipe_args 0, fork_ret2 env, - 1) \<and>
     jobs s' as = jobs s as \<and>
     trace s' = trace s @
       [Close Pipe_write, Dup2 Pipe_read Stdin, Waitpid (fork_ret2 env), Malloc (Some new)]"
proof -
  let ?s1 = "emit (Waitpid (fork_ret2 env))
      (emit (Dup2 Pipe_read Stdin) (emit (Close Pipe_write) s))"
  from assms(8) have t: "table ?s1 as" by simp
  from assms(7) have n: "new \<notin> live ?s1" by (simp add: emit_def)
  from process_add_table [OF t assms(6) n, of "arg pipe_args 0" "fork_ret2 env" bg_flag]
  obtain s' where add: "process_add env (arg pipe_args 0) (fork_ret2 env) bg_flag ?s1 = (0, s')"
    and t': "table s' (new # as)"
    and j: "job_of (heap s' new) = (arg pipe_args 0, fork_ret2 env, - 1)"
    and o: "\<forall>x. x \<noteq> new \<longrightarrow> heap s' x = heap ?s1 x"
    and tr: "trace s' = trace ?s1 @ [Malloc (Some new)]"
    by blast
  from assms(7,8) have "new \<notin> set as" by (auto simp: table_def)
  with o have "jobs s' as = jobs ?s1 as" by (auto simp: jobs_def)
  then have js: "jobs s' as = jobs s as" by simp
  from tr have tr': "trace s' = trace s @
       [Close Pipe_write, Dup2 Pipe_read Stdin, Waitpid (fork_ret2 env), Malloc (Some new)]"
    by simp
  from assms(1-5) add have "execute_pipe env (a0 # rest) bg_flag s =
       (case arg pipe_args 0 of
          None \<Rightarrow> Halt Segfault s'
        | Some c \<Rightarrow>
            (case execvp_ret env of
               None \<Rightarrow> Halt (Image_replaced (Some c) pipe_args) s'
             | Some errno \<Rightarrow> Return 0 (execvp_failed errno s')))"
    by (simp add: execute_pipe_def Let_def)
  with t' j js tr' show ?thesis by blast
qed

text \<open>
  C4, witness: \<open>ls | wc\<close> and \<open>ls |\<close> in the background, with two jobs in the table.
\<close>

theorem execute_pipe_middle_registration_witness:
  "pipe_ret p1_os = 0 \<and> fork_ret p1_os = 0 \<and> 0 < fork_ret2 p1_os \<and>
   split_pipe [''|'', ''wc''] = Some ([], [''wc'']) \<and> split_pipe [''|''] = Some ([], []) \<and>
   (1 :: int) \<noteq> 0 \<and>
   malloc_ret p1_os = Some 5 \<and> 5 \<notin> live two_jobs \<and> table two_jobs [4, 3] \<and>
   (\<exists>s'. execute_pipe p1_os [''ls'', ''|'', ''wc''] 1 two_jobs =
       Halt (Image_replaced (Some ''wc'') [''wc'']) s' \<and>
     table s' [5, 4, 3] \<and> job_of (heap s' 5) = (Some ''wc'', 102, - 1) \<and>
     trace s' = [Close Pipe_write, Dup2 Pipe_read Stdin, Waitpid 102, Malloc (Some 5)]) \<and>
   (\<exists>s'. execute_pipe p1_os [''ls'', ''|''] 1 two_jobs = Halt Segfault s' \<and>
     table s' [5, 4, 3] \<and> job_of (heap s' 5) = (None, 102, - 1) \<and>
     trace s' = [Close Pipe_write, Dup2 Pipe_read Stdin, Waitpid 102, Malloc (Some 5)])"
proof -
  have h: "pipe_ret p1_os = 0" "fork_ret p1_os = 0" "0 < fork_ret2 p1_os"
    by (simp_all add: p1_os_def)
  have sp: "split_pipe [''|'', ''wc''] = Some ([], [''wc''])" "split_pipe [''|''] = Some ([], [])"
    by simp_all
  have m: "(1 :: int) \<noteq> 0" "malloc_ret p1_os = Some 5" "5 \<notin> live two_jobs"
    by (simp_all add: p1_os_def two_jobs_def)
  have e: "execvp_ret p1_os = None" "fork_ret2 p1_os = 102" "arg [''wc''] 0 = Some ''wc''"
    "arg [] 0 = None" "trace two_jobs = []"
    by (simp_all add: p1_os_def arg_def two_jobs_def)
  from execute_pipe_middle_registration [OF h sp(1) m two_jobs_table, of "''ls''"]
  have a: "\<exists>s'. execute_pipe p1_os [''ls'', ''|'', ''wc''] 1 two_jobs =
       Halt (Image_replaced (Some ''wc'') [''wc'']) s' \<and>
     table s' [5, 4, 3] \<and> job_of (heap s' 5) = (Some ''wc'', 102, - 1) \<and>
     trace s' = [Close Pipe_write, Dup2 Pipe_read Stdin, Waitpid 102, Malloc (Some 5)]"
    by (auto simp: e)
  from execute_pipe_middle_registration [OF h sp(2) m two_jobs_table, of "''ls''"]
  have b: "\<exists>s'. execute_pipe p1_os [''ls'', ''|''] 1 two_jobs = Halt Segfault s' \<and>
     table s' [5, 4, 3] \<and> job_of (heap s' 5) = (None, 102, - 1) \<and>
     trace s' = [Close Pipe_write, Dup2 Pipe_read Stdin, Waitpid 102, Malloc (Some 5)]"
    by (auto simp: e)
  from h sp m two_jobs_table a b show ?thesis by (intro conjI)
qed

subsection \<open>C5: the child of the launcher\<close>

text \<open>
  C5. The claim: after a successful launch the child never returns to the caller's control
  flow, the \<open>wait\<close>/\<open>sleep\<close> stand-in included. In the child (\<open>fork\<close> returned \<open>0\<close>)
  the stand-in sleeps and then executes \<open>return 0\<close>: for every argument vector with a
  second element, \<open>execute\<close> returns \<open>0\<close> to its caller, the read loop of \<open>main\<close>, in
  the child process.
\<close>

theorem execute_stand_in_child_returns:
  "execute (env\<lparr>fork_ret := 0\<rparr>) (Some ''sleep'') (''sleep'' # a # rest) bg_flag s =
     Return 0 (emit (Sleep (to_unsigned (strtol10 a))) s)"
  by (simp add: execute_def arg_def)

subsection \<open>C6: the interrupt handler\<close>

text \<open>
  C6, counterexample. The claim: the pid given to \<open>process_terminate_fg\<close> by the handler
  always equals \<open>shell_id\<close>, so the handler never terminates any process. The handler
  passes \<open>getpid()\<close>. A forked child that still runs this program (the stand-in while it
  sleeps, the middle process of a pipeline while it waits) has inherited the handler and
  \<open>shell_id\<close>, here 100, and has a pid of its own, here 101: there the handler sends
  \<open>SIGKILL\<close> to the child.
\<close>

theorem signal_handler_in_child:
  "signal_handler (an_os\<lparr>getpid_ret := 101\<rparr>) SIGINT empty_shell =
     Some (emit (Kill 101 SIGKILL) empty_shell) \<and> shell_id empty_shell = 100"
  by (simp add: signal_handler_def process_terminate_fg_def empty_shell_def)

text \<open>
  C6, as amended. On \<open>SIGINT\<close> the handler sends nothing when the pid of the process it
  runs in equals \<open>shell_id\<close>, as in the shell itself, and otherwise sends \<open>SIGKILL\<close> to
  the process it runs in; \<open>process_terminate_fg\<close> never acts on the pid in \<open>shell_id\<close>.
\<close>

theorem signal_handler_SIGINT:
  "signal_handler env SIGINT s =
     Some (if getpid_ret env = shell_id s then s else emit (Kill (getpid_ret env) SIGKILL) s) \<and>
   process_terminate_fg (shell_id s) s = s"
  by (simp add: signal_handler_def process_terminate_fg_def)

text \<open>C6, witness: the handler in the shell, and in a process with another pid.\<close>

theorem signal_handler_SIGINT_witness:
  "getpid_ret an_os = shell_id empty_shell \<and>
   signal_handler an_os SIGINT empty_shell = Some empty_shell \<and>
   getpid_ret p1_os \<noteq> shell_id empty_shell \<and>
   signal_handler p1_os SIGINT empty_shell = Some (emit (Kill 101 SIGKILL) empty_shell)"
  using signal_handler_SIGINT [of an_os empty_shell] signal_handler_SIGINT [of p1_os empty_shell]
  by (simp add: an_os_def p1_os_def empty_shell_def)

subsection \<open>C7: emptying the table at exit\<close>

text \<open>
  C7. The claim: the teardown at exit removes every record and leaves the table empty. The
  comment in \<open>execute_exit\<close> says so too (removes all process list elements from memory),
  but after each removal the loop sets \<open>process_list = node\<close>, in the first round the
  node just freed, and reads \<open>node->next\<close> from it. For every table that is not empty:
  the loop ends, it has read the freed first node, and \<open>process_list\<close> is left pointing
  to the last node; with two records or more that last record is still allocated and in
  the table. Then the process kills its process group.
\<close>

theorem execute_exit_table_not_emptied:
  assumes "table s as" and "as \<noteq> []"
  shows "\<exists>s'. execute_exit s = Some (Halt Killed_by_signal s') \<and>
     process_list s' = Some (last as) \<and> Invalid_access (hd as) \<in> set (faults s') \<and>
     (2 \<le> length as \<longrightarrow> table s' [last as] \<and> pids s' [last as] = [last (pids s as)])"
proof (cases as)
  case Nil
  with assms(2) show ?thesis by simp
next
  case (Cons a bs)
  show ?thesis
  proof (cases bs)
    case Nil
    with Cons assms(1) have "table s [a]" by simp
    then have "exit_loop (process_list s) s =
        Some (Return () (s\<lparr>live := live s - {a}, process_list := Some a,
                           faults := faults s @ [Invalid_access a],
                           trace := trace s @ [Free a]\<rparr>))"
      by (rule exit_loop_single)
    then have "execute_exit s = Some (Halt Killed_by_signal
        (emit (Kill 0 SIGKILL) (s\<lparr>live := live s - {a}, process_list := Some a,
                           faults := faults s @ [Invalid_access a],
                           trace := trace s @ [Free a]\<rparr>)))"
      by (simp add: execute_exit_def)
    with \<open>as = a # bs\<close> Nil show ?thesis
      by (simp add: emit_def)
  next
    case (Cons b cs)
    with \<open>as = a # bs\<close> have as: "as = a # b # cs" by simp
    with assms(1) have t: "table s (a # b # cs)" by simp
    let ?z = "last (b # cs)"
    let ?s' = "s\<lparr>live := live s - set (butlast (a # b # cs)),
        process_list := Some ?z,
        faults := faults s @ [Invalid_access a, Invalid_access a,
          Invalid_access a, Invalid_access a, Invalid_free a],
        trace := trace s @ [Free a, Free a] @ map Free (butlast (b # cs))\<rparr>"
    have lz: "last (a # b # cs) = ?z" by simp
    from t have "exit_loop (process_list s) s = Some (Return () ?s')"
      by (rule exit_loop_several)
    then have ex: "execute_exit s = Some (Halt Killed_by_signal (emit (Kill 0 SIGKILL) ?s'))"
      by (simp add: execute_exit_def)
    from t have c: "chain (heap s) (process_list s) (a # b # cs)"
      and l: "set (a # b # cs) \<subseteq> live s"
      unfolding table_def by blast+
    from c have "next_node (heap s (last (a # b # cs))) = None"
      by (rule chain_last) simp
    then have nz: "next_node (heap s ?z) = None"
      unfolding lz .
    from t have "distinct (a # b # cs)" by (rule table_distinct)
    then have "last (a # b # cs) \<notin> set (butlast (a # b # cs))"
      by (rule distinct_last_butlast) simp
    then have nb: "?z \<notin> set (butlast (a # b # cs))"
      unfolding lz .
    have "last (a # b # cs) \<in> set (a # b # cs)"
      by (rule last_in_set) simp
    then have "?z \<in> set (a # b # cs)"
      unfolding lz .
    with l have zl: "?z \<in> live s" by blast
    from nz nb zl have tz: "table (emit (Kill 0 SIGKILL) ?s') [?z]"
      by (simp add: table_def emit_def)
    have pz: "pids (emit (Kill 0 SIGKILL) ?s') [?z] = [last (pids s (a # b # cs))]"
      by (simp add: pids_def emit_def last_map)
    have fz: "Invalid_access a \<in> set (faults (emit (Kill 0 SIGKILL) ?s'))"
      by (simp add: emit_def)
    have hz: "process_list (emit (Kill 0 SIGKILL) ?s') = Some ?z"
      by (simp add: emit_def)
    from ex tz pz fz hz show ?thesis
      unfolding as lz list.sel(1) by blast
  qed
qed

text \<open>C7, witness: the table of two jobs; the job of pid 5 stays.\<close>

theorem execute_exit_table_not_emptied_witness:
  "table two_jobs [4, 3] \<and> [4, 3 :: nat] \<noteq> [] \<and>
   (\<exists>s'. execute_exit two_jobs = Some (Halt Killed_by_signal s') \<and>
      process_list s' = Some 3 \<and> Invalid_access 4 \<in> set (faults s') \<and>
      table s' [3] \<and> pids s' [3] = [5])"
proof -
  have ne: "[4, 3 :: nat] \<noteq> []" by simp
  from execute_exit_table_not_emptied [OF two_jobs_table ne]
  have "\<exists>s'. execute_exit two_jobs = Some (Halt Killed_by_signal s') \<and>
      process_list s' = Some 3 \<and> Invalid_access 4 \<in> set (faults s') \<and>
      table s' [3] \<and> pids s' [3] = [5]"
    by (simp add: two_jobs_pids)
  with two_jobs_table ne show ?thesis by (intro conjI)
qed

text \<open>
  The same run, evaluated: the freed node at address 4 is read four times and freed a
  second time.
\<close>

lemma execute_exit_two_jobs:
  "\<exists>s'. execute_exit two_jobs = Some (Halt Killed_by_signal s') \<and>
     table s' [3] \<and> pids s' [3] = [5] \<and> live s' = {3} \<and>
     faults s' = [Invalid_access 4, Invalid_access 4, Invalid_access 4, Invalid_access 4, Invalid_free 4]"
  by (auto simp: two_jobs_def execute_exit_def exit_loop.simps process_remove_from_list_def
      remove_loop.simps access_def free_def emit_def table_def pids_def Let_def)

subsection \<open>C8: the order of the two commands of a pipeline\<close>

text \<open>
  C8. Take any timeline of the middle process \<open>p1\<close> of a pipeline and of its child \<open>p2\<close>,
  in which each process does what \<open>execute_pipe\<close> makes it do and every \<open>waitpid\<close>
  returns only after the awaited process has ended. Whenever the middle process replaces
  its image in it, the new image is the second command, and before that moment, in this
  order: the child has ended, and the \<open>waitpid\<close> of the middle process on the child has
  returned. When \<open>execvp\<close> succeeded in the child, the child had become the first command
  before it ended. So the first command has run to completion before the second one starts.
\<close>

theorem pipeline_first_command_ends_first:
  assumes p1: "pipe_ret env1 = 0" "fork_ret env1 = 0" "fork_ret2 env1 = p2" "0 < p2"
    and p2: "pipe_ret env2 = 0" "fork_ret env2 = 0" "fork_ret2 env2 = 0"
    and sp: "split_pipe rest = Some (l, pipe_args)"
    and tm: "pipeline_timeline p1 env1 p2 env2 (a0 # rest) bg_flag s tline"
    and at: "tline = pre @ (p1, Halts (Image_replaced c argv)) # post"
  shows "c = arg pipe_args 0 \<and> argv = pipe_args \<and>
     (\<exists>ys zs. pre = ys @ (p2, Terminated) # zs \<and> (p1, Call (Waitpid p2)) \<in> set zs \<and>
        (execvp_ret env2 = None \<longrightarrow>
           (p2, Halts (Image_replaced (Some a0) (a0 # l))) \<in> set ys))"
proof -
  let ?out1 = "execute_pipe env1 (a0 # rest) bg_flag s"
  let ?out2 = "execute_pipe env2 (a0 # rest) bg_flag s"
  let ?cs1 = "drop (length (trace s)) (trace (final ?out1))"
  let ?cs2 = "drop (length (trace s)) (trace (final ?out2))"
  from tm have pre1: "prefix (proj p1 tline) (lifetime s ?out1)"
    and pre2: "prefix (proj p2 tline) (lifetime s ?out2)" and w: "waits_ok [] tline"
    by (simp_all add: pipeline_timeline_def)
  \<comment> \<open>the middle process: its ending is the replacement, after all its calls\<close>
  from pre1 at obtain r1 where eq1:
    "map Call ?cs1 @ [ending ?out1, Terminated] =
       proj p1 pre @ Halts (Image_replaced c argv) # r1"
    by (auto simp: prefix_def lifetime_def)
  have "Halts (Image_replaced c argv) \<notin> set (map Call ?cs1)"
    and "Halts (Image_replaced c argv) \<noteq> Terminated"
    by auto
  with eq1 have "proj p1 pre = map Call ?cs1 \<and> Halts (Image_replaced c argv) = ending ?out1"
    by (rule ending_position)
  then have e1: "proj p1 pre = map Call ?cs1" and m1: "ending ?out1 = Halts (Image_replaced c argv)"
    by simp_all
  from p1 sp m1 have cv: "c = arg pipe_args 0 \<and> argv = pipe_args"
    and wp: "Waitpid p2 \<in> set ?cs1"
    using execute_pipe_second_command [of env1 rest l pipe_args a0 bg_flag s c argv] by simp_all
  from wp e1 have "Call (Waitpid p2) \<in> set (proj p1 pre)"
    by simp
  then have "(p1, Call (Waitpid p2)) \<in> set pre"
    by (rule in_proj)
  then obtain u v where uv: "pre = u @ (p1, Call (Waitpid p2)) # v"
    by (auto simp: in_set_conv_decomp)
  \<comment> \<open>the wait returns only after the child has terminated\<close>
  from w at uv have "waits_ok [] (u @ (p1, Call (Waitpid p2)) # (v @ (p1, Halts (Image_replaced c argv)) # post))"
    by simp
  then have "(p2, Terminated) \<in> set ([] @ u)"
    by (rule waits_ok_split) simp
  then obtain ys zs where u: "u = ys @ (p2, Terminated) # zs"
    by (auto simp: in_set_conv_decomp)
  \<comment> \<open>the child has terminated only after its own ending\<close>
  have first: "(p2, Halts (Image_replaced (Some a0) (a0 # l))) \<in> set ys"
    if ex: "execvp_ret env2 = None"
  proof -
    from pre2 at uv u obtain r2 where eq2:
      "map Call ?cs2 @ [ending ?out2, Terminated] = proj p2 ys @ Terminated # r2"
      by (auto simp: prefix_def lifetime_def)
    have "Terminated \<notin> set (map Call ?cs2)"
      by auto
    with eq2 have "proj p2 ys = map Call ?cs2 @ [ending ?out2]"
      by (rule termination_position) (rule ending_not_Terminated)
    moreover from p2 sp ex have "ending ?out2 = Halts (Image_replaced (Some a0) (a0 # l))"
      by (rule execute_pipe_first_command)
    ultimately have "Halts (Image_replaced (Some a0) (a0 # l)) \<in> set (proj p2 ys)"
      by simp
    then show ?thesis by (rule in_proj)
  qed
  from uv u have "pre = ys @ (p2, Terminated) # (zs @ (p1, Call (Waitpid p2)) # v)"
    by simp
  moreover have "(p1, Call (Waitpid p2)) \<in> set (zs @ (p1, Call (Waitpid p2)) # v)"
    by simp
  ultimately have "pre = ys @ (p2, Terminated) # (zs @ (p1, Call (Waitpid p2)) # v) \<and>
      (p1, Call (Waitpid p2)) \<in> set (zs @ (p1, Call (Waitpid p2)) # v) \<and>
      (execvp_ret env2 = None \<longrightarrow>
         (p2, Halts (Image_replaced (Some a0) (a0 # l))) \<in> set ys)"
    using first by (intro conjI impI)
  then have "\<exists>ys zs. pre = ys @ (p2, Terminated) # zs \<and> (p1, Call (Waitpid p2)) \<in> set zs \<and>
        (execvp_ret env2 = None \<longrightarrow>
           (p2, Halts (Image_replaced (Some a0) (a0 # l))) \<in> set ys)"
    by (intro exI)
  with cv show ?thesis by (intro conjI) simp_all
qed

text \<open>
  C8, witness: a timeline of \<open>ls | wc -l\<close> in the foreground, the middle process with
  pid 101 and its child with pid 102.
\<close>

theorem pipeline_first_command_ends_first_witness:
  "pipe_ret p1_os = 0 \<and> fork_ret p1_os = 0 \<and> fork_ret2 p1_os = 102 \<and> (0 :: int) < 102 \<and>
   pipe_ret p2_os = 0 \<and> fork_ret p2_os = 0 \<and> fork_ret2 p2_os = 0 \<and>
   split_pipe [''|'', ''wc'', ''-l''] = Some ([], [''wc'', ''-l'']) \<and>
   pipeline_timeline 101 p1_os 102 p2_os [''ls'', ''|'', ''wc'', ''-l''] 0 empty_shell ls_wc_timeline \<and>
   ls_wc_timeline =
     ls_wc_before @ (101, Halts (Image_replaced (Some ''wc'') [''wc'', ''-l''])) # [(101, Terminated)] \<and>
   execvp_ret p2_os = None \<and>
   (\<exists>ys zs. ls_wc_before = ys @ (102, Terminated) # zs \<and>
      (101, Call (Waitpid 102)) \<in> set zs \<and>
      (102, Halts (Image_replaced (Some ''ls'') [''ls''])) \<in> set ys)"
proof -
  have h1: "pipe_ret p1_os = 0" "fork_ret p1_os = 0" "fork_ret2 p1_os = 102" "(0 :: int) < 102"
    by (simp_all add: p1_os_def)
  have h2: "pipe_ret p2_os = 0" "fork_ret p2_os = 0" "fork_ret2 p2_os = 0"
    by (simp_all add: p2_os_def)
  have sp: "split_pipe [''|'', ''wc'', ''-l''] = Some ([], [''wc'', ''-l''])"
    by simp
  have tm: "pipeline_timeline 101 p1_os 102 p2_os [''ls'', ''|'', ''wc'', ''-l''] 0 empty_shell
      ls_wc_timeline"
    by (simp add: pipeline_timeline_def ls_wc_timeline_def ls_wc_before_def proj_def lifetime_def
        execute_pipe_def p1_os_def p2_os_def arg_def empty_shell_def emit_def Let_def)
  have at: "ls_wc_timeline =
     ls_wc_before @ (101, Halts (Image_replaced (Some ''wc'') [''wc'', ''-l''])) # [(101, Terminated)]"
    by (simp add: ls_wc_timeline_def)
  have ex: "execvp_ret p2_os = None"
    by (simp add: p2_os_def)
  from pipeline_first_command_ends_first [OF h1 h2 sp tm at] ex
  have "\<exists>ys zs. ls_wc_before = ys @ (102, Terminated) # zs \<and>
      (101, Call (Waitpid 102)) \<in> set zs \<and>
      (102, Halts (Image_replaced (Some ''ls'') [''ls''])) \<in> set ys"
    by simp
  with h1 h2 sp tm at ex show ?thesis by (intro conjI)
qed

subsection \<open>C9: the display index of a new record\<close>

text \<open>
  C9. A successful \<open>process_add\<close> on a table puts a record with \<open>list_id = -1\<close> at its
  head. Until the next enumeration the record keeps this index: a removal by pid leaves the
  fields of every node as they are, and \<open>process_bring_to_fg(-1)\<close> finds the new record,
  takes it out of the table and returns its pid (read after the node was freed, as the
  conjunct about \<open>faults\<close> records). \<open>process_print_list\<close> gives the record the index
  \<open>0\<close> and every record an index that is not negative, and then the call with \<open>-1\<close>
  finds nothing.
\<close>

theorem process_add_sentinel:
  assumes "table s as" and "malloc_ret env = Some new" and "new \<notin> live s"
  shows "\<exists>s1. process_add env nm pid bg_flag s = (0, s1) \<and> table s1 (new # as) \<and>
     job_of (heap s1 new) = (nm, pid, - 1) \<and> jobs s1 as = jobs s as \<and>
     (\<exists>s2. process_bring_to_fg (- 1) s1 = Some (pid, s2) \<and> table s2 as \<and>
        jobs s2 as = jobs s as \<and> faults s2 = faults s @ [Invalid_access new]) \<and>
     (\<forall>pid'. \<exists>r s3. process_remove_from_list pid' s1 = Some (r, s3) \<and>
        job_of (heap s3 new) = (nm, pid, - 1)) \<and>
     (\<exists>s4. process_print_list s1 = Some s4 \<and> table s4 (new # as) \<and>
        list_id (heap s4 new) = 0 \<and> (\<forall>a \<in> set (new # as). 0 \<le> list_id (heap s4 a)) \<and>
        (\<exists>s5. process_bring_to_fg (- 1) s4 = Some (- 1, s5) \<and> table s5 (new # as)))"
proof -
  from process_add_table [OF assms, of nm pid bg_flag] obtain s1 where
    add: "process_add env nm pid bg_flag s = (0, s1)" and t1: "table s1 (new # as)"
    and j: "job_of (heap s1 new) = (nm, pid, - 1)"
    and o: "\<forall>x. x \<noteq> new \<longrightarrow> heap s1 x = heap s x" and f: "faults s1 = faults s"
    by blast
  from assms have "new \<notin> set as" by (auto simp: table_def)
  with o have js: "jobs s1 as = jobs s as"
    by (auto simp: jobs_def)
  from j have pid: "process_id (heap s1 new) = pid" and lid: "list_id (heap s1 new) = - 1"
    by (simp_all add: job_of_def)
  have "\<exists>s'. process_bring_to_fg (- 1) s1 = Some (process_id (heap s1 new), s') \<and>
     table s' ([] @ as) \<and> jobs s' ([] @ as) = jobs s1 ([] @ as) \<and>
     faults s' = faults s1 @ [Invalid_access new] \<and> trace s' = trace s1 @ [Free new] \<and>
     live s' = live s1 - {new}"
    using t1 lid by (intro process_bring_to_fg_unlinks) simp_all
  with pid js f have fg: "\<exists>s2. process_bring_to_fg (- 1) s1 = Some (pid, s2) \<and> table s2 as \<and>
        jobs s2 as = jobs s as \<and> faults s2 = faults s @ [Invalid_access new]"
    by auto
  have rm: "\<exists>r s3. process_remove_from_list pid' s1 = Some (r, s3) \<and>
        job_of (heap s3 new) = (nm, pid, - 1)" for pid'
    using process_remove_from_list_keeps_jobs [OF t1, of pid'] j by auto
  let ?s4 = "printed 0 (new # as) s1"
  have p: "process_print_list s1 = Some ?s4"
    using t1 by (rule process_print_list_table)
  have t4: "table ?s4 (new # as)"
    using t1 by (simp add: table_printed)
  have ix: "list_id (heap ?s4 ((new # as) ! k)) = int k" if "k < length (new # as)" for k
    using t1 that by (rule printed_list_id)
  from ix [of 0] have z: "list_id (heap ?s4 new) = 0" by simp
  have nn: "\<forall>a \<in> set (new # as). 0 \<le> list_id (heap ?s4 a)"
  proof
    fix a
    assume "a \<in> set (new # as)"
    then obtain k where "k < length (new # as)" and "a = (new # as) ! k"
      by (metis in_set_conv_nth)
    then show "0 \<le> list_id (heap ?s4 a)" using ix [of k] by simp
  qed
  then have ne: "\<forall>a \<in> set (new # as). list_id (heap ?s4 a) \<noteq> - 1"
    by fastforce
  have "new # as \<noteq> []" by simp
  with t4 have "process_bring_to_fg (- 1) ?s4 = Some (- 1, ?s4)"
    using ne by (rule process_bring_to_fg_miss)
  with p t4 z nn have pr: "\<exists>s4. process_print_list s1 = Some s4 \<and> table s4 (new # as) \<and>
        list_id (heap s4 new) = 0 \<and> (\<forall>a \<in> set (new # as). 0 \<le> list_id (heap s4 a)) \<and>
        (\<exists>s5. process_bring_to_fg (- 1) s4 = Some (- 1, s5) \<and> table s5 (new # as))"
    by blast
  from add t1 j js fg rm pr show ?thesis by blast
qed

text \<open>C9, witness: a third job added to the table of two jobs.\<close>

theorem process_add_sentinel_witness:
  "table two_jobs [4, 3] \<and> malloc_ret an_os = Some 5 \<and> 5 \<notin> live two_jobs \<and>
   (\<exists>s1 s2 s4. process_add an_os (Some ''c'') 7 1 two_jobs = (0, s1) \<and>
      job_of (heap s1 5) = (Some ''c'', 7, - 1) \<and>
      process_bring_to_fg (- 1) s1 = Some (7, s2) \<and> table s2 [4, 3] \<and>
      process_print_list s1 = Some s4 \<and> list_id (heap s4 5) = 0)"
proof -
  have m: "malloc_ret an_os = Some 5" by (simp add: an_os_def)
  have n: "5 \<notin> live two_jobs" by (simp add: two_jobs_def)
  from process_add_sentinel [OF two_jobs_table m n, of "Some ''c''" 7 1]
  show ?thesis using two_jobs_table m n by blast
qed

subsection \<open>C10: commands that need an argument\<close>

text \<open>
  C10. For the command \<open>fg\<close>, \<open>execute_built_ins\<close> dereferences a null pointer exactly
  when \<open>params[1]\<close> is \<open>NULL\<close>; when it is not, and the job table is a list, the call
  returns \<open>0\<close>. The same holds for \<open>wait\<close> and \<open>sleep\<close> in the child of \<open>execute\<close>.
\<close>

theorem fg_and_stand_in_need_an_argument:
  "(execute_built_ins env (Some ''fg'') params s = Some (Halt Segfault s) \<longleftrightarrow>
      arg params 1 = None) \<and>
   (table s as \<longrightarrow> arg params 1 \<noteq> None \<longrightarrow>
      (\<exists>s'. execute_built_ins env (Some ''fg'') params s = Some (Return 0 s'))) \<and>
   (execute (env\<lparr>fork_ret := 0\<rparr>) (Some ''wait'') params bg_flag s = Halt Segfault s \<longleftrightarrow>
      arg params 1 = None) \<and>
   (execute (env\<lparr>fork_ret := 0\<rparr>) (Some ''sleep'') params bg_flag s = Halt Segfault s \<longleftrightarrow>
      arg params 1 = None)"
proof -
  have a: "execute_built_ins env (Some ''fg'') params s = Some (Halt Segfault s) \<longleftrightarrow>
      arg params 1 = None"
    by (auto simp: execute_built_ins_def split: option.splits)
  have b: "\<exists>s'. execute_built_ins env (Some ''fg'') params s = Some (Return 0 s')"
    if t: "table s as" and p: "arg params 1 \<noteq> None"
  proof -
    from p obtain x where x: "arg params 1 = Some x" by blast
    from process_bring_to_fg_total [OF t, of "to_int (strtol10 x)"] obtain r s' where
      "process_bring_to_fg (to_int (strtol10 x)) s = Some (r, s')"
      by blast
    then have "\<exists>r' s''. execute_fg (to_int (strtol10 x)) s = Some (r', s'')"
      by (simp add: execute_fg_def)
    with x show ?thesis
      by (auto simp: execute_built_ins_def)
  qed
  have c: "execute (env\<lparr>fork_ret := 0\<rparr>) (Some ''wait'') params bg_flag s = Halt Segfault s \<longleftrightarrow>
      arg params 1 = None"
    by (auto simp: execute_def split: option.splits)
  have d: "execute (env\<lparr>fork_ret := 0\<rparr>) (Some ''sleep'') params bg_flag s = Halt Segfault s \<longleftrightarrow>
      arg params 1 = None"
    by (auto simp: execute_def split: option.splits)
  from a b c d show ?thesis by blast
qed

text \<open>C10, witness: \<open>fg\<close> without and with an argument, on the table of two jobs.\<close>

theorem fg_and_stand_in_need_an_argument_witness:
  "arg [''fg''] 1 = None \<and>
   execute_built_ins an_os (Some ''fg'') [''fg''] two_jobs = Some (Halt Segfault two_jobs) \<and>
   table two_jobs [4, 3] \<and> arg [''fg'', ''0''] 1 = Some ''0'' \<and>
   (\<exists>s'. execute_built_ins an_os (Some ''fg'') [''fg'', ''0''] two_jobs = Some (Return 0 s'))"
proof -
  have n: "arg [''fg''] 1 = None" and y: "arg [''fg'', ''0''] 1 = Some ''0''"
    by (simp_all add: arg_def)
  from fg_and_stand_in_need_an_argument [of an_os "[''fg'']" two_jobs "[4, 3]" 0] n
  have "execute_built_ins an_os (Some ''fg'') [''fg''] two_jobs = Some (Halt Segfault two_jobs)"
    by blast
  moreover from fg_and_stand_in_need_an_argument [of an_os "[''fg'', ''0'']" two_jobs "[4, 3]" 0]
    two_jobs_table y
  have "\<exists>s'. execute_built_ins an_os (Some ''fg'') [''fg'', ''0''] two_jobs = Some (Return 0 s')"
    by simp
  ultimately show ?thesis using n y two_jobs_table by blast
qed

end
